theory Spec2Isabelle
  imports Main "HOL-Library.Word" "HOL-Library.Signed_Division"
begin

unbundle bit_operations_syntax

section \<open>Arduboy emulator display and input glue (arduboy\_emu\_app.c)\<close>

text \<open>
  A shallow embedding of \<^verbatim>\<open>arduboy_emu_app.c\<close>: the luminance map update
  (\<^verbatim>\<open>ssd1306_gl_update_lumamap\<close>), the renderer (\<^verbatim>\<open>ssd1306_gl_render\<close>), the
  scaling computation (\<^verbatim>\<open>calculate_display_scaling\<close>) and the key handling
  (\<^verbatim>\<open>lv_arduboy_emu_app_handle_input\<close>, \<^verbatim>\<open>key_to_button_e\<close>,
  \<^verbatim>\<open>key_release_timer_cb\<close>). The C globals are passed and returned explicitly.
\<close>

subsection \<open>Machine types and constants\<close>

type_synonym u8 = "8 word"
type_synonym int16 = "16 word"
type_synonym int32 = "32 word"
type_synonym u32 = "32 word"

text \<open>\<^verbatim>\<open>#define OLED_WIDTH 128\<close>, \<^verbatim>\<open>#define OLED_HEIGHT 64\<close>,
  \<^verbatim>\<open>#define BUTTON_COUNT 6\<close>.\<close>

definition OLED_WIDTH :: nat where
  "OLED_WIDTH = 128"

definition OLED_HEIGHT :: nat where
  "OLED_HEIGHT = 64"

definition BUTTON_COUNT :: nat where
  "BUTTON_COUNT = 6"

text \<open>An LVGL object pointer is an object identifier; \<^verbatim>\<open>NULL\<close> is \<open>None\<close>.\<close>

type_synonym lv_obj = nat

text \<open>The struct \<^verbatim>\<open>ArduboyLvglContext\<close>; \<^verbatim>\<open>int\<close> is 32 bits wide, read as
  two's complement by \<open>sint\<close>. The array \<^verbatim>\<open>luma_pixmap\<close> has
  \<^verbatim>\<open>OLED_WIDTH * OLED_HEIGHT\<close> cells, row after row.\<close>

record ArduboyLvglContext =
  canvas :: "lv_obj option"
  scale :: int32
  offset_x :: int32
  offset_y :: int32
  canvas_width :: int32
  canvas_height :: int32
  luma_pixmap :: "u8 list"
  initialized :: bool

subsection \<open>The luminance map update\<close>

text \<open>
  The body of the innermost loop for one cell. Lines 143 to 151: the cell is read into
  an \<^verbatim>\<open>int16_t\<close>, decayed, incremented when the lowest bit of \<^verbatim>\<open>px_col\<close>
  is set, and clamped with signed comparisons. Line 153 narrows the result to
  \<^verbatim>\<open>uint8_t\<close>.
\<close>

definition luma_clamped :: "u8 \<Rightarrow> u8 \<Rightarrow> u8 \<Rightarrow> u8 \<Rightarrow> int16" where
  "luma_clamped old px_col luma_decay luma_inc =
     (let luma = (ucast old :: int16);
          luma = luma - ucast luma_decay;
          luma = (if px_col AND 1 \<noteq> 0 then luma + ucast luma_inc else luma)
      in if luma <s 0 then 0 else if 255 <s luma then 255 else luma)"

definition luma_update :: "u8 \<Rightarrow> u8 \<Rightarrow> u8 \<Rightarrow> u8 \<Rightarrow> u8" where
  "luma_update old px_col luma_decay luma_inc =
     ucast (luma_clamped old px_col luma_decay luma_inc)"

text \<open>
  The memory the loops work on: the pixmap, and the list of the offsets the loops have
  stored to (line 153), in program order. Every store follows a load of the same cell
  (line 143), so this list is the sequence of the cells visited.
\<close>

type_synonym luma_mem = "u8 list \<times> nat list"

text \<open>The loop over \<^verbatim>\<open>bit\<close> (lines 141 to 155), its counter written \<open>bit'\<close>;
  \<^verbatim>\<open>column_ptr\<close> is an offset into \<^verbatim>\<open>luma_pixmap\<close>.\<close>

function lumamap_bits :: "nat \<Rightarrow> nat \<Rightarrow> u8 \<Rightarrow> u8 \<Rightarrow> u8 \<Rightarrow> luma_mem \<Rightarrow> luma_mem" where
  "lumamap_bits bit' column_ptr px_col luma_decay luma_inc (pix, stores) =
     (if bit' < 8 then
        let index = bit' * OLED_WIDTH;
            luma = luma_update (pix ! (column_ptr + index)) px_col luma_decay luma_inc
        in lumamap_bits (bit' + 1) column_ptr (drop_bit 1 px_col) luma_decay luma_inc
             (pix[column_ptr + index := luma], stores @ [column_ptr + index])
      else (pix, stores))"
  by pat_completeness auto
termination
  by (relation "measure (\<lambda>(bit', _). 8 - bit')") auto

text \<open>The loop over \<^verbatim>\<open>col\<close> (lines 138 to 157). The frame
  \<^verbatim>\<open>ssd1306->vram[page][col]\<close> belongs to the display device of simavr; it is read
  through a lookup function. The loop returns the advanced \<^verbatim>\<open>column_ptr\<close>.\<close>

type_synonym vram = "nat \<Rightarrow> nat \<Rightarrow> u8"

function lumamap_cols :: "vram \<Rightarrow> nat \<Rightarrow> nat \<Rightarrow> nat \<Rightarrow> u8 \<Rightarrow> u8 \<Rightarrow> luma_mem \<Rightarrow> nat \<times> luma_mem" where
  "lumamap_cols ssd1306 page col column_ptr luma_decay luma_inc mem =
     (if col < OLED_WIDTH then
        let px_col = ssd1306 page col;
            mem' = lumamap_bits 0 column_ptr px_col luma_decay luma_inc mem
        in lumamap_cols ssd1306 page (col + 1) (column_ptr + 1) luma_decay luma_inc mem'
      else (column_ptr, mem))"
  by pat_completeness auto
termination
  by (relation "measure (\<lambda>(_, _, col, _). OLED_WIDTH - col)") auto

text \<open>The loop over \<^verbatim>\<open>page\<close> (lines 137 to 159).\<close>

function lumamap_pages :: "vram \<Rightarrow> nat \<Rightarrow> nat \<Rightarrow> u8 \<Rightarrow> u8 \<Rightarrow> luma_mem \<Rightarrow> luma_mem" where
  "lumamap_pages ssd1306 page column_ptr luma_decay luma_inc mem =
     (if page < OLED_HEIGHT div 8 then
        let (column_ptr', mem') = lumamap_cols ssd1306 page 0 column_ptr luma_decay luma_inc mem
        in lumamap_pages ssd1306 (page + 1) (column_ptr' + OLED_WIDTH * 7) luma_decay luma_inc mem'
      else mem)"
  by pat_completeness auto
termination
  by (relation "measure (\<lambda>(_, page, _). OLED_HEIGHT div 8 - page)") auto

declare lumamap_bits.simps [simp del]
declare lumamap_cols.simps [simp del]
declare lumamap_pages.simps [simp del]

text \<open>\<^verbatim>\<open>ssd1306_gl_update_lumamap\<close>, on the pixmap: \<^verbatim>\<open>column_ptr\<close> starts at the
  first cell. The first component is the new pixmap, the second the cells visited.\<close>

definition update_lumamap_mem :: "vram \<Rightarrow> u8 \<Rightarrow> u8 \<Rightarrow> u8 list \<Rightarrow> luma_mem" where
  "update_lumamap_mem ssd1306 luma_decay luma_inc pix =
     lumamap_pages ssd1306 0 0 luma_decay luma_inc (pix, [])"

definition ssd1306_gl_update_lumamap ::
  "vram \<Rightarrow> u8 \<Rightarrow> u8 \<Rightarrow> ArduboyLvglContext \<Rightarrow> ArduboyLvglContext" where
  "ssd1306_gl_update_lumamap ssd1306 luma_decay luma_inc g_ctx =
     g_ctx\<lparr>luma_pixmap := fst (update_lumamap_mem ssd1306 luma_decay luma_inc (luma_pixmap g_ctx))\<rparr>"


text \<open>The globals are zero before \<^verbatim>\<open>ssd1306_gl_init\<close> runs, and its
  \<^verbatim>\<open>memset\<close> zeroes the context again.\<close>

definition g_ctx_zero :: ArduboyLvglContext where
  "g_ctx_zero =
     \<lparr>canvas = None, scale = 0, offset_x = 0, offset_y = 0, canvas_width = 0,
      canvas_height = 0, luma_pixmap = replicate (OLED_WIDTH * OLED_HEIGHT) 0,
      initialized = False\<rparr>"

text \<open>A sequence of calls of \<^verbatim>\<open>ssd1306_gl_update_lumamap\<close>, each with its own frame,
  decay and increment.\<close>

fun lumamap_calls :: "(vram \<times> u8 \<times> u8) list \<Rightarrow> ArduboyLvglContext \<Rightarrow> ArduboyLvglContext" where
  "lumamap_calls [] g_ctx = g_ctx"
| "lumamap_calls ((ssd1306, luma_decay, luma_inc) # calls) g_ctx =
     lumamap_calls calls (ssd1306_gl_update_lumamap ssd1306 luma_decay luma_inc g_ctx)"

text \<open>The cell of pixel \<open>(x, y)\<close>, as the renderer reads it (line 182), and the bit of
  the frame that belongs to the pixel: bit \<open>y mod 8\<close> of the byte of page \<open>y div 8\<close>.\<close>

definition cell_index :: "nat \<Rightarrow> nat \<Rightarrow> nat" where
  "cell_index x y = y * OLED_WIDTH + x"

definition frame_bit :: "vram \<Rightarrow> nat \<Rightarrow> nat \<Rightarrow> bool" where
  "frame_bit ssd1306 x y = bit (ssd1306 (y div 8) x) (y mod 8)"

text \<open>The update rule in the words of the specification, on unbounded integers:
  \<^verbatim>\<open>luma' = clamp(luma - decay + (bit==1 ? increment : 0), 0, 255)\<close>.\<close>

definition spec_clamp :: "int \<Rightarrow> int \<Rightarrow> int \<Rightarrow> int" where
  "spec_clamp x lo hi = (if x < lo then lo else if hi < x then hi else x)"

definition spec_luma :: "int \<Rightarrow> bool \<Rightarrow> int \<Rightarrow> int \<Rightarrow> int" where
  "spec_luma luma b decay increment =
     spec_clamp (luma - decay + (if b then increment else 0)) 0 255"

subsection \<open>Rendering\<close>

text \<open>
  LVGL is a library outside these sources. A colour is its three channels; the canvas
  operations \<^verbatim>\<open>lv_canvas_fill_bg\<close> and \<^verbatim>\<open>lv_canvas_set_px\<close> are parameters that
  transform the destination surface \<open>'s\<close>.
\<close>

type_synonym lv_color = "u8 \<times> u8 \<times> u8"

definition lv_color_black :: lv_color where
  "lv_color_black = (0, 0, 0)"

definition LV_OPA_COVER :: u8 where
  "LV_OPA_COVER = 255"

definition gray_u8_to_rgb :: "u8 \<Rightarrow> lv_color" where
  "gray_u8_to_rgb v = (v, v, v)"

type_synonym 's fill_bg = "lv_obj \<Rightarrow> lv_color \<Rightarrow> u8 \<Rightarrow> 's \<Rightarrow> 's"
type_synonym 's set_px = "lv_obj \<Rightarrow> int32 \<Rightarrow> int32 \<Rightarrow> lv_color \<Rightarrow> u8 \<Rightarrow> 's \<Rightarrow> 's"

text \<open>The loops of lines 180 to 192, innermost first. The counters \<open>dx\<close> and \<open>dy\<close>
  stay below \<^verbatim>\<open>scale\<close>, so they never overflow; the pixel coordinates are computed in
  \<^verbatim>\<open>int\<close>.\<close>

function render_dx ::
  "'s set_px \<Rightarrow> lv_obj \<Rightarrow> int32 \<Rightarrow> nat \<Rightarrow> nat \<Rightarrow> int \<Rightarrow> int \<Rightarrow> lv_color \<Rightarrow> 's \<Rightarrow> 's" where
  "render_dx lv_canvas_set_px cv scale' x y dy dx color surface =
     (if dx < sint scale' then
        render_dx lv_canvas_set_px cv scale' x y dy (dx + 1) color
          (lv_canvas_set_px cv (of_nat x * scale' + word_of_int dx)
             (of_nat y * scale' + word_of_int dy) color LV_OPA_COVER surface)
      else surface)"
  by pat_completeness auto
termination
  by (relation "measure (\<lambda>(_, _, scale', _, _, _, dx, _). nat (sint scale' - dx))") auto

function render_dy ::
  "'s set_px \<Rightarrow> lv_obj \<Rightarrow> int32 \<Rightarrow> nat \<Rightarrow> nat \<Rightarrow> int \<Rightarrow> lv_color \<Rightarrow> 's \<Rightarrow> 's" where
  "render_dy lv_canvas_set_px cv scale' x y dy color surface =
     (if dy < sint scale' then
        render_dy lv_canvas_set_px cv scale' x y (dy + 1) color
          (render_dx lv_canvas_set_px cv scale' x y dy 0 color surface)
      else surface)"
  by pat_completeness auto
termination
  by (relation "measure (\<lambda>(_, _, scale', _, _, dy, _). nat (sint scale' - dy))") auto

function render_x ::
  "'s set_px \<Rightarrow> ArduboyLvglContext \<Rightarrow> lv_obj \<Rightarrow> nat \<Rightarrow> nat \<Rightarrow> 's \<Rightarrow> 's" where
  "render_x lv_canvas_set_px g_ctx cv y x surface =
     (if x < OLED_WIDTH then
        let luminance = luma_pixmap g_ctx ! (y * OLED_WIDTH + x);
            color = gray_u8_to_rgb luminance
        in render_x lv_canvas_set_px g_ctx cv y (x + 1)
             (render_dy lv_canvas_set_px cv (scale g_ctx) x y 0 color surface)
      else surface)"
  by pat_completeness auto
termination
  by (relation "measure (\<lambda>(_, _, _, _, x, _). OLED_WIDTH - x)") auto

function render_y ::
  "'s set_px \<Rightarrow> ArduboyLvglContext \<Rightarrow> lv_obj \<Rightarrow> nat \<Rightarrow> 's \<Rightarrow> 's" where
  "render_y lv_canvas_set_px g_ctx cv y surface =
     (if y < OLED_HEIGHT then
        render_y lv_canvas_set_px g_ctx cv (y + 1)
          (render_x lv_canvas_set_px g_ctx cv y 0 surface)
      else surface)"
  by pat_completeness auto
termination
  by (relation "measure (\<lambda>(_, _, _, y, _). OLED_HEIGHT - y)") auto

declare render_dx.simps [simp del]
declare render_dy.simps [simp del]
declare render_x.simps [simp del]
declare render_y.simps [simp del]

text \<open>\<^verbatim>\<open>ssd1306_gl_render\<close>: the safety check of line 171 first, then the background
  fill and the loops.\<close>

definition ssd1306_gl_render ::
  "'s fill_bg \<Rightarrow> 's set_px \<Rightarrow> ArduboyLvglContext \<Rightarrow> 's \<Rightarrow> 's" where
  "ssd1306_gl_render lv_canvas_fill_bg lv_canvas_set_px g_ctx surface =
     (if \<not> initialized g_ctx \<or> canvas g_ctx = None then surface
      else
        let cv = the (canvas g_ctx);
            surface = lv_canvas_fill_bg cv lv_color_black LV_OPA_COVER surface
        in render_y lv_canvas_set_px g_ctx cv 0 surface)"

subsection \<open>Display scaling\<close>

text \<open>\<^verbatim>\<open>#define MAX_CANVAS_SIZE (OLED_WIDTH * OLED_HEIGHT * 8)\<close>, the number of
  pixels of the static canvas buffer.\<close>

definition MAX_CANVAS_SIZE :: nat where
  "MAX_CANVAS_SIZE = OLED_WIDTH * OLED_HEIGHT * 8"

text \<open>Division of C on \<^verbatim>\<open>int\<close>: the quotient is truncated towards zero.\<close>

definition int_div :: "int32 \<Rightarrow> int32 \<Rightarrow> int32" where
  "int_div a b = word_of_int (sint a sdiv sint b)"

text \<open>
  \<^verbatim>\<open>calculate_display_scaling\<close> (lines 339 to 369). The arithmetic is that of 32-bit
  \<^verbatim>\<open>int\<close>: comparisons are signed, and sums, differences and products are taken
  modulo \<open>2 ^ 32\<close>, the two's complement result where C leaves the overflow of
  \<^verbatim>\<open>int\<close> undefined.
\<close>

definition calculate_display_scaling ::
  "int32 \<Rightarrow> int32 \<Rightarrow> ArduboyLvglContext \<Rightarrow> ArduboyLvglContext" where
  "calculate_display_scaling screen_width screen_height g_ctx =
     (let scale_by_height = int_div screen_height (of_nat OLED_HEIGHT);
          scale_by_width = int_div screen_width (of_nat OLED_WIDTH);
          g_ctx = g_ctx\<lparr>scale :=
            (if scale_by_height <s scale_by_width then scale_by_height else scale_by_width)\<rparr>;
          g_ctx = (if scale g_ctx <s 1 then g_ctx\<lparr>scale := 1\<rparr> else g_ctx);
          scaled_width = of_nat OLED_WIDTH * scale g_ctx;
          scaled_height = of_nat OLED_HEIGHT * scale g_ctx;
          g_ctx = g_ctx\<lparr>offset_x := int_div (screen_width - scaled_width) 2\<rparr>;
          g_ctx = g_ctx\<lparr>offset_y := int_div (screen_height - scaled_height) 2\<rparr>;
          g_ctx = g_ctx\<lparr>canvas_width := scaled_width\<rparr>;
          g_ctx = g_ctx\<lparr>canvas_height := scaled_height\<rparr>;
          total_pixels = canvas_width g_ctx * canvas_height g_ctx
      in if of_nat MAX_CANVAS_SIZE <s total_pixels then
           let g_ctx = g_ctx\<lparr>scale := 1\<rparr>;
               g_ctx = g_ctx\<lparr>canvas_width := of_nat OLED_WIDTH\<rparr>;
               g_ctx = g_ctx\<lparr>canvas_height := of_nat OLED_HEIGHT\<rparr>;
               g_ctx = g_ctx\<lparr>offset_x := int_div (screen_width - canvas_width g_ctx) 2\<rparr>;
               g_ctx = g_ctx\<lparr>offset_y := int_div (screen_height - canvas_height g_ctx) 2\<rparr>
           in g_ctx
         else g_ctx)"

text \<open>The scale of the specification: the smaller of the two quotients, at least 1.\<close>

definition spec_scale :: "int \<Rightarrow> int \<Rightarrow> int" where
  "spec_scale w h = max 1 (min (h div int OLED_HEIGHT) (w div int OLED_WIDTH))"

subsection \<open>Key handling\<close>

text \<open>The LVGL key codes of lines 25 to 30.\<close>

definition KEY_UP :: u32 where
  "KEY_UP = 17"

definition KEY_LEFT :: u32 where
  "KEY_LEFT = 20"

definition KEY_DOWN :: u32 where
  "KEY_DOWN = 18"

definition KEY_RIGHT :: u32 where
  "KEY_RIGHT = 19"

definition KEY_ENTER :: u32 where
  "KEY_ENTER = 10"

definition KEY_ESC :: u32 where
  "KEY_ESC = 27"

text \<open>\<^verbatim>\<open>key_to_button_e\<close>: the \<^verbatim>\<open>switch\<close> of lines 283 to 293.\<close>

definition key_to_button_e :: "u32 \<Rightarrow> int" where
  "key_to_button_e key =
     (if key = KEY_UP then 0
      else if key = KEY_DOWN then 1
      else if key = KEY_LEFT then 2
      else if key = KEY_RIGHT then 3
      else if key = KEY_ENTER \<or> key = 122 then 4
      else if key = KEY_ESC \<or> key = 120 then 5
      else - 1)"

text \<open>
  The calls that leave the file: \<^verbatim>\<open>arduboy_avr_button_event(btn, pressed)\<close> of the
  emulator, and \<^verbatim>\<open>lv_timer_create\<close> (with its period) and \<^verbatim>\<open>lv_timer_reset\<close> of
  LVGL. The state of the input handling is the array \<^verbatim>\<open>key_states\<close>, the pointer
  \<^verbatim>\<open>g_release_timer\<close> and the calls made so far, in order.
\<close>

datatype ext_call = Button_event nat bool | Timer_create nat | Timer_reset

type_synonym lv_timer = nat

record input_state =
  key_states :: "bool list"
  g_release_timer :: "lv_timer option"
  ext_calls :: "ext_call list"

text \<open>\<^verbatim>\<open>lv_arduboy_emu_app_handle_input\<close> (lines 251 to 270). What
  \<^verbatim>\<open>lv_timer_create\<close> returns (a timer, or \<^verbatim>\<open>NULL\<close>) is a parameter.\<close>

definition lv_arduboy_emu_app_handle_input ::
  "lv_timer option \<Rightarrow> u32 \<Rightarrow> input_state \<Rightarrow> input_state" where
  "lv_arduboy_emu_app_handle_input lv_timer_create key s =
     (let button_index = key_to_button_e key
      in if 0 \<le> button_index \<and> button_index < int BUTTON_COUNT then
           if \<not> key_states s ! nat button_index then
             let s = s\<lparr>ext_calls := ext_calls s @ [Button_event (nat button_index) True]\<rparr>;
                 s = s\<lparr>key_states := (key_states s)[nat button_index := True]\<rparr>
             in if g_release_timer s = None then
                  s\<lparr>ext_calls := ext_calls s @ [Timer_create 100],
                    g_release_timer := lv_timer_create\<rparr>
                else s\<lparr>ext_calls := ext_calls s @ [Timer_reset]\<rparr>
           else s
         else s)"

text \<open>\<^verbatim>\<open>key_release_timer_cb\<close> (lines 300 to 312): the loop over the buttons.\<close>

function release_loop :: "nat \<Rightarrow> input_state \<Rightarrow> input_state" where
  "release_loop i s =
     (if i < BUTTON_COUNT then
        release_loop (i + 1)
          (if key_states s ! i then
             let s = s\<lparr>ext_calls := ext_calls s @ [Button_event i False]\<rparr>
             in s\<lparr>key_states := (key_states s)[i := False]\<rparr>
           else s)
      else s)"
  by pat_completeness auto
termination
  by (relation "measure (\<lambda>(i, _). BUTTON_COUNT - i)") auto

declare release_loop.simps [simp del]

definition key_release_timer_cb :: "input_state \<Rightarrow> input_state" where
  "key_release_timer_cb s = release_loop 0 s"

text \<open>The calls made between two states, and the initial state of the statics
  (line 59 and 60).\<close>

definition emitted :: "input_state \<Rightarrow> input_state \<Rightarrow> ext_call list" where
  "emitted s s' = drop (length (ext_calls s)) (ext_calls s')"

text \<open>The button events among a list of calls, in order.\<close>

fun button_events :: "ext_call list \<Rightarrow> (nat \<times> bool) list" where
  "button_events [] = []"
| "button_events (Button_event b pressed # cs) = (b, pressed) # button_events cs"
| "button_events (Timer_create period # cs) = button_events cs"
| "button_events (Timer_reset # cs) = button_events cs"

text \<open>The key codes of the lookup table of \<^verbatim>\<open>key_to_button_e\<close>.\<close>

definition mapped_keys :: "u32 set" where
  "mapped_keys = {KEY_UP, KEY_DOWN, KEY_LEFT, KEY_RIGHT, KEY_ENTER, 122, KEY_ESC, 120}"

definition input_init :: input_state where
  "input_init = \<lparr>key_states = replicate BUTTON_COUNT False, g_release_timer = None, ext_calls = []\<rparr>"

subsection \<open>Auxiliary definitions of the proofs\<close>

text \<open>One visit of a cell: the store of line 153 at offset \<open>j\<close>, with the bit of the
  frame that the loops have shifted into place there. The lists below are the offsets
  in the order of the three loops.\<close>

definition store_cell :: "vram \<Rightarrow> u8 \<Rightarrow> u8 \<Rightarrow> nat \<Rightarrow> u8 list \<Rightarrow> u8 list" where
  "store_cell v d i j pix =
     pix[j := luma_update (pix ! j) (drop_bit ((j div 128) mod 8) (v (j div 1024) (j mod 128))) d i]"

definition col_cells :: "nat \<Rightarrow> nat \<Rightarrow> nat \<Rightarrow> nat list" where
  "col_cells page col b = map (\<lambda>k. page * 1024 + col + k * 128) [b..<8]"

definition page_cells :: "nat \<Rightarrow> nat \<Rightarrow> nat list" where
  "page_cells page c = concat (map (\<lambda>col. col_cells page col 0) [c..<128])"

definition all_cells :: "nat \<Rightarrow> nat list" where
  "all_cells p = concat (map (\<lambda>page. page_cells page 0) [p..<8])"

text \<open>The scale after line 347, before the capacity check.\<close>

definition cand_scale :: "int32 \<Rightarrow> int32 \<Rightarrow> int32" where
  "cand_scale w h =
     (let sbh = int_div h 64; sbw = int_div w 128; s = (if sbh <s sbw then sbh else sbw)
      in if s <s 1 then 1 else s)"

text \<open>The release events of the timer callback for the buttons from \<open>i\<close> on.\<close>

definition released :: "bool list \<Rightarrow> nat \<Rightarrow> ext_call list" where
  "released ks i = map (\<lambda>j. Button_event j False) (filter (\<lambda>j. ks ! j) [i..<6])"

section \<open>Properties\<close>

subsection \<open>The cell update without overflow\<close>

lemma uint_u8_bounds: "0 \<le> uint (x::u8) \<and> uint x < 256"
  using uint_bounded [of x] by simp

lemma stb15: "- 32768 \<le> k \<Longrightarrow> k < 32768 \<Longrightarrow> signed_take_bit 15 (k::int) = k"
  by (rule signed_take_bit_int_eq_self) simp_all

lemma sint16_of_int: "- 32768 \<le> k \<Longrightarrow> k < 32768 \<Longrightarrow> sint (word_of_int k :: int16) = k"
  by (simp only: sint_sbintrunc') (simp add: stb15)

lemma ucast16_8_of_int: "0 \<le> k \<Longrightarrow> k \<le> 255 \<Longrightarrow> uint (ucast (word_of_int k :: int16) :: u8) = k"
  by (simp add: uint_word_of_int unsigned_ucast_eq take_bit_eq_mod)

lemma and_1_iff_bit: "(px :: u8) AND 1 \<noteq> 0 \<longleftrightarrow> bit px 0"
  by (simp add: and_one_eq bit_0 odd_iff_mod_2_eq_one)

lemma luma16_sub: "(ucast (a::u8) :: int16) - ucast (b::u8) = word_of_int (uint a - uint b)"
  by simp

lemma luma16_sub_add:
  "(ucast (a::u8) :: int16) - ucast (b::u8) + ucast (c::u8) = word_of_int (uint a - uint b + uint c)"
  by simp

lemma luma_clamped_of_int:
  "luma_clamped old px_col luma_decay luma_inc =
     (let luma = (word_of_int
            (uint old - uint luma_decay + (if bit px_col 0 then uint luma_inc else 0)) :: int16)
      in if luma <s 0 then 0 else if 255 <s luma then 255 else luma)"
  unfolding luma_clamped_def Let_def and_1_iff_bit
  by (simp only: luma16_sub luma16_sub_add split: if_splits) simp

lemma luma_sum_bounds:
  "- 32768 \<le> uint (old::u8) - uint (d::u8) + (if b then uint (i::u8) else 0)"
  "uint (old::u8) - uint (d::u8) + (if b then uint (i::u8) else 0) < 32768"
  using uint_u8_bounds [of old] uint_u8_bounds [of d] uint_u8_bounds [of i]
  by (cases b; simp only: if_True if_False; linarith)+

lemma sint_clamp16:
  "sint (if w <s 0 then 0 else if 255 <s w then 255 else (w::int16)) = spec_clamp (sint w) 0 255"
  by (simp add: word_sless_alt spec_clamp_def)

lemma sint_luma_clamped:
  "sint (luma_clamped old px_col luma_decay luma_inc) =
     spec_luma (uint old) (bit px_col 0) (uint luma_decay) (uint luma_inc)"
proof -
  let ?k = "uint old - uint luma_decay + (if bit px_col 0 then uint luma_inc else 0)"
  have s: "sint (word_of_int ?k :: int16) = ?k"
    by (rule sint16_of_int) (rule luma_sum_bounds)+
  show ?thesis
    by (simp only: luma_clamped_of_int Let_def sint_clamp16 s spec_luma_def)
qed

lemma spec_luma_range: "0 \<le> spec_luma a b d i \<and> spec_luma a b d i \<le> 255"
  by (simp add: spec_luma_def spec_clamp_def)

lemma uint_luma_update:
  "uint (luma_update old px_col luma_decay luma_inc) =
     sint (luma_clamped old px_col luma_decay luma_inc)"
proof -
  let ?w = "luma_clamped old px_col luma_decay luma_inc"
  have r: "0 \<le> sint ?w" "sint ?w \<le> 255"
    using spec_luma_range by (simp_all add: sint_luma_clamped)
  have "?w = word_of_int (sint ?w)" by simp
  then have "uint (ucast ?w :: u8) = uint (ucast (word_of_int (sint ?w) :: int16) :: u8)"
    by simp
  also have "\<dots> = sint ?w" using r by (rule ucast16_8_of_int)
  finally show ?thesis by (simp add: luma_update_def)
qed

subsection \<open>The loops as a sequence of cell updates\<close>

lemma idx_decomp:
  fixes page col k :: nat
  assumes "col < 128" "k < 8"
  shows "(page * 1024 + col + k * 128) div 1024 = page"
    and "(page * 1024 + col + k * 128) mod 128 = col"
    and "((page * 1024 + col + k * 128) div 128) mod 8 = k"
proof -
  have lt: "col + k * 128 < 1024" using assms by simp
  have "(page * 1024 + col + k * 128) div 1024 = (col + k * 128 + page * 1024) div 1024"
    by (simp add: ac_simps)
  also have "\<dots> = page" using lt by simp
  finally show "(page * 1024 + col + k * 128) div 1024 = page" .
  have e: "page * 1024 + col + k * 128 = col + (page * 8 + k) * 128" by simp
  have "(col + (page * 8 + k) * 128) mod 128 = col mod 128"
    by (rule mod_mult_self1)
  then show "(page * 1024 + col + k * 128) mod 128 = col"
    unfolding e using assms by simp
  have "(col + (page * 8 + k) * 128) div 128 = (page * 8 + k) + col div 128"
    by (rule div_mult_self1) simp
  then have "(page * 1024 + col + k * 128) div 128 = k + page * 8"
    unfolding e using assms by simp
  then show "((page * 1024 + col + k * 128) div 128) mod 8 = k"
    using assms by simp
qed

lemma store_cell_at:
  assumes "col < 128" "k < 8"
  shows "store_cell v d i (page * 1024 + col + k * 128) pix =
     pix[page * 1024 + col + k * 128 :=
       luma_update (pix ! (page * 1024 + col + k * 128)) (drop_bit k (v page col)) d i]"
  by (simp only: store_cell_def idx_decomp [OF assms])

lemma col_cells_step: "b < 8 \<Longrightarrow> col_cells page col b = (page * 1024 + col + b * 128) # col_cells page col (Suc b)"
  by (simp add: col_cells_def upt_conv_Cons)

lemma col_cells_end: "col_cells page col 8 = []"
  by (simp add: col_cells_def)

lemma lumamap_bits_step:
  "b < 8 \<Longrightarrow> lumamap_bits b p px d i (pix, st) =
     lumamap_bits (Suc b) p (drop_bit 1 px) d i
       (pix[p + b * 128 := luma_update (pix ! (p + b * 128)) px d i], st @ [p + b * 128])"
  by (subst lumamap_bits.simps) (simp add: Let_def OLED_WIDTH_def)

lemma lumamap_bits_fold:
  assumes "col < 128"
  shows "b \<le> 8 \<Longrightarrow>
     lumamap_bits b (page * 1024 + col) (drop_bit b (v page col)) d i (pix, st) =
       (fold (store_cell v d i) (col_cells page col b) pix, st @ col_cells page col b)"
proof (induction "8 - b" arbitrary: b pix st)
  case 0
  then have "b = 8" by simp
  then show ?case by (simp add: lumamap_bits.simps col_cells_end)
next
  case (Suc n)
  then have b: "b < 8" by simp
  have dd: "drop_bit 1 (drop_bit b (v page col)) = drop_bit (Suc b) (v page col)" by simp
  have ih: "lumamap_bits (Suc b) (page * 1024 + col) (drop_bit (Suc b) (v page col)) d i (pix', st') =
       (fold (store_cell v d i) (col_cells page col (Suc b)) pix', st' @ col_cells page col (Suc b))" for pix' st'
    using Suc.hyps(1) [of "Suc b" pix' st'] Suc.hyps(2) b by simp
  show ?case
    unfolding lumamap_bits_step [OF b] dd ih col_cells_step [OF b]
    by (simp add: store_cell_at [OF assms b])
qed

lemma page_cells_step: "c < 128 \<Longrightarrow> page_cells page c = col_cells page c 0 @ page_cells page (Suc c)"
  by (simp add: page_cells_def upt_conv_Cons)

lemma page_cells_end: "page_cells page 128 = []"
  by (simp add: page_cells_def)

lemma lumamap_cols_step:
  "c < 128 \<Longrightarrow> lumamap_cols v page c ptr d i mem =
     lumamap_cols v page (Suc c) (Suc ptr) d i (lumamap_bits 0 ptr (v page c) d i mem)"
  by (subst lumamap_cols.simps) (simp add: Let_def OLED_WIDTH_def)

lemma lumamap_cols_stop:
  "lumamap_cols v page 128 ptr d i mem = (ptr, mem)"
  by (subst lumamap_cols.simps) (simp add: OLED_WIDTH_def)

lemma lumamap_cols_fold:
  "c \<le> 128 \<Longrightarrow>
     lumamap_cols v page c (page * 1024 + c) d i (pix, st) =
       (page * 1024 + 128, fold (store_cell v d i) (page_cells page c) pix, st @ page_cells page c)"
proof (induction "128 - c" arbitrary: c pix st)
  case 0
  then have "c = 128" by simp
  then show ?case by (simp add: lumamap_cols_stop page_cells_end)
next
  case (Suc n)
  then have c: "c < 128" by simp
  have ih: "lumamap_cols v page (Suc c) (Suc (page * 1024 + c)) d i (pix', st') =
       (page * 1024 + 128, fold (store_cell v d i) (page_cells page (Suc c)) pix', st' @ page_cells page (Suc c))" for pix' st'
    using Suc.hyps(1) [of "Suc c" pix' st'] Suc.hyps(2) c by simp
  have bits: "lumamap_bits 0 (page * 1024 + c) (v page c) d i (pix, st) =
       (fold (store_cell v d i) (col_cells page c 0) pix, st @ col_cells page c 0)"
    using lumamap_bits_fold [OF c, of 0 page v d i pix st] by simp
  show ?case
    unfolding lumamap_cols_step [OF c] bits ih page_cells_step [OF c]
    by simp
qed

lemma all_cells_step: "p < 8 \<Longrightarrow> all_cells p = page_cells p 0 @ all_cells (Suc p)"
  by (simp add: all_cells_def upt_conv_Cons)

lemma all_cells_end: "all_cells 8 = []"
  by (simp add: all_cells_def)

lemma lumamap_pages_step:
  "p < 8 \<Longrightarrow> lumamap_pages v p ptr d i mem =
     lumamap_pages v (Suc p) (fst (lumamap_cols v p 0 ptr d i mem) + 896) d i
       (snd (lumamap_cols v p 0 ptr d i mem))"
  by (subst lumamap_pages.simps) (simp add: Let_def OLED_WIDTH_def OLED_HEIGHT_def split_beta)

lemma lumamap_pages_stop:
  "lumamap_pages v 8 ptr d i mem = mem"
  by (subst lumamap_pages.simps) (simp add: OLED_HEIGHT_def)

lemma lumamap_pages_fold:
  "p \<le> 8 \<Longrightarrow>
     lumamap_pages v p (p * 1024) d i (pix, st) =
       (fold (store_cell v d i) (all_cells p) pix, st @ all_cells p)"
proof (induction "8 - p" arbitrary: p pix st)
  case 0
  then have "p = 8" by simp
  then show ?case by (simp add: lumamap_pages_stop all_cells_end)
next
  case (Suc n)
  then have p: "p < 8" by simp
  have ih: "lumamap_pages v (Suc p) (p * 1024 + 128 + 896) d i (pix', st') =
       (fold (store_cell v d i) (all_cells (Suc p)) pix', st' @ all_cells (Suc p))" for pix' st'
    using Suc.hyps(1) [of "Suc p" pix' st'] Suc.hyps(2) p by (simp add: add.commute)
  have cols: "lumamap_cols v p 0 (p * 1024) d i (pix, st) =
       (p * 1024 + 128, fold (store_cell v d i) (page_cells p 0) pix, st @ page_cells p 0)"
    using lumamap_cols_fold [of 0 v p d i pix st] by simp
  show ?case
    unfolding lumamap_pages_step [OF p] cols fst_conv snd_conv ih all_cells_step [OF p]
    by simp
qed

lemma update_lumamap_mem_fold:
  "update_lumamap_mem v d i pix = (fold (store_cell v d i) (all_cells 0) pix, all_cells 0)"
  using lumamap_pages_fold [of 0 v d i pix "[]"] by (simp add: update_lumamap_mem_def)


lemma length_fold_store_cell: "length (fold (store_cell v d i) js pix) = length pix"
  by (induction js arbitrary: pix) (simp_all add: store_cell_def)

lemma store_cell_nth:
  "store_cell v d i a pix ! j =
     (if j = a \<and> a < length pix
      then luma_update (pix ! j) (drop_bit ((j div 128) mod 8) (v (j div 1024) (j mod 128))) d i
      else pix ! j)"
proof (cases "a < length pix")
  case True
  then show ?thesis by (simp add: store_cell_def nth_list_update)
next
  case False
  then show ?thesis by (simp add: store_cell_def list_update_beyond)
qed

lemma length_store_cell: "length (store_cell v d i a pix) = length pix"
  by (simp add: store_cell_def)

lemma fold_store_cell_nth:
  "distinct js \<Longrightarrow>
     fold (store_cell v d i) js pix ! j =
       (if j \<in> set js \<and> j < length pix
        then luma_update (pix ! j) (drop_bit ((j div 128) mod 8) (v (j div 1024) (j mod 128))) d i
        else pix ! j)"
proof (induction js arbitrary: pix)
  case Nil
  then show ?case by simp
next
  case (Cons a js)
  then have d: "distinct js" and a: "a \<notin> set js" by simp_all
  show ?case
    using a Cons.IH [OF d, of "store_cell v d i a pix"]
    by (cases "j = a") (simp_all add: store_cell_nth length_store_cell)
qed

lemma set_col_cells: "set (col_cells page col 0) = (\<lambda>k. page * 1024 + col + k * 128) ` {..<8}"
  by (simp add: col_cells_def atLeast0LessThan)

lemma set_page_cells:
  "set (page_cells page 0) = (\<Union>col\<in>{..<128}. (\<lambda>k. page * 1024 + col + k * 128) ` {..<8})"
  by (simp add: page_cells_def set_col_cells atLeast0LessThan)

lemma set_all_cells_raw:
  "set (all_cells 0) =
     (\<Union>page\<in>{..<8}. \<Union>col\<in>{..<128}. (\<lambda>k. page * 1024 + col + k * 128) ` {..<8})"
  by (simp add: all_cells_def set_page_cells atLeast0LessThan)

lemma idx_recomp:
  fixes j :: nat
  shows "j = (j div 1024) * 1024 + j mod 128 + ((j div 128) mod 8) * 128"
proof -
  have a: "j = (j div 128) * 128 + j mod 128" by simp
  have b: "j div 128 = ((j div 128) div 8) * 8 + (j div 128) mod 8" by simp
  have c: "(j div 128) div 8 = j div 1024" by (simp add: div_mult2_eq)
  have "j = (((j div 128) div 8) * 8 + (j div 128) mod 8) * 128 + j mod 128"
    using a b by simp
  then show ?thesis unfolding c by (simp add: algebra_simps)
qed

lemma set_all_cells: "set (all_cells 0) = {..<8192}"
proof (rule set_eqI)
  fix j
  show "j \<in> set (all_cells 0) \<longleftrightarrow> j \<in> {..<8192}"
  proof
    assume "j \<in> set (all_cells 0)"
    then obtain p c k where "p < 8" "c < 128" "k < 8" "j = p * 1024 + c + k * 128"
      unfolding set_all_cells_raw by auto
    then show "j \<in> {..<8192}" by simp
  next
    assume "j \<in> {..<8192}"
    then have j: "j < 8192" by simp
    have "j div 1024 < 8" using j by simp
    moreover have "j mod 128 < 128" by simp
    moreover have "(j div 128) mod 8 < 8" by simp
    ultimately show "j \<in> set (all_cells 0)"
      unfolding set_all_cells_raw using idx_recomp [of j] by blast
  qed
qed

lemma length_col_cells: "length (col_cells page col 0) = 8"
  by (simp add: col_cells_def)

lemma length_page_cells: "length (page_cells page 0) = 1024"
  by (simp add: page_cells_def length_concat comp_def length_col_cells sum_list_triv)

lemma length_all_cells: "length (all_cells 0) = 8192"
  by (simp add: all_cells_def length_concat comp_def length_page_cells sum_list_triv)

lemma distinct_all_cells: "distinct (all_cells 0)"
  by (rule card_distinct) (simp add: set_all_cells length_all_cells)


lemma update_lumamap_mem_nth:
  assumes "length pix = 8192" "j < 8192"
  shows "fst (update_lumamap_mem v d i pix) ! j =
     luma_update (pix ! j) (drop_bit ((j div 128) mod 8) (v (j div 1024) (j mod 128))) d i"
  using assms
  by (simp add: update_lumamap_mem_fold fold_store_cell_nth [OF distinct_all_cells] set_all_cells)

lemma length_update_lumamap_mem:
  "length (fst (update_lumamap_mem v d i pix)) = length pix"
  by (simp add: update_lumamap_mem_fold length_fold_store_cell)

lemma snd_update_lumamap_mem: "snd (update_lumamap_mem v d i pix) = all_cells 0"
  by (simp add: update_lumamap_mem_fold)

lemma cell_index_page:
  "cell_index col (page * 8 + b) = page * 1024 + col + b * 128"
  by (simp add: cell_index_def OLED_WIDTH_def)

lemma cell_index_less:
  assumes "page < 8" "col < 128" "b < 8"
  shows "cell_index col (page * 8 + b) < 8192"
  using assms by (simp add: cell_index_page)

lemma update_lumamap_mem_pixel:
  assumes "length pix = 8192" "page < 8" "col < 128" "b < 8"
  shows "uint (fst (update_lumamap_mem v d i pix) ! cell_index col (page * 8 + b)) =
     spec_luma (uint (pix ! cell_index col (page * 8 + b))) (bit (v page col) b) (uint d) (uint i)"
proof -
  let ?j = "cell_index col (page * 8 + b)"
  have j: "?j < 8192" using assms(2-4) by (rule cell_index_less)
  have dec: "?j div 1024 = page" "?j mod 128 = col" "(?j div 128) mod 8 = b"
    unfolding cell_index_page using idx_decomp [OF assms(3,4), of page] by simp_all
  have "fst (update_lumamap_mem v d i pix) ! ?j = luma_update (pix ! ?j) (drop_bit b (v page col)) d i"
    using update_lumamap_mem_nth [OF assms(1) j, of v d i] by (simp only: dec)
  then show ?thesis
    by (simp add: uint_luma_update sint_luma_clamped bit_drop_bit_eq)
qed

text \<open>
  Claim C1. For every call of the luminance map update with a frame, a decay and an
  increment, the loops visit each of the \<open>128 * 64\<close> cells exactly once (the list of
  visited offsets has no repetition and holds every offset below \<open>128 * 64\<close>), and the
  cell of pixel \<open>(col, page * 8 + bitIndex)\<close> becomes
  \<open>clamp (old - decay + (if bit bitIndex of the byte is set then increment else 0)) 0 255\<close>,
  bit 0 being the topmost row of the page.
\<close>

theorem lumamap_visits_each_cell_once:
  "length (luma_pixmap g_ctx) = OLED_WIDTH * OLED_HEIGHT \<Longrightarrow>
     (let (pix', visited) = update_lumamap_mem ssd1306 luma_decay luma_inc (luma_pixmap g_ctx)
      in luma_pixmap (ssd1306_gl_update_lumamap ssd1306 luma_decay luma_inc g_ctx) = pix' \<and>
         length pix' = OLED_WIDTH * OLED_HEIGHT \<and>
         distinct visited \<and>
         set visited = {..<OLED_WIDTH * OLED_HEIGHT} \<and>
         (\<forall>page<OLED_HEIGHT div 8. \<forall>col<OLED_WIDTH. \<forall>bitIndex<8.
            uint (pix' ! cell_index col (page * 8 + bitIndex)) =
              spec_luma (uint (luma_pixmap g_ctx ! cell_index col (page * 8 + bitIndex)))
                (bit (ssd1306 page col) bitIndex) (uint luma_decay) (uint luma_inc)))"
proof -
  assume "length (luma_pixmap g_ctx) = OLED_WIDTH * OLED_HEIGHT"
  then have len: "length (luma_pixmap g_ctx) = 8192"
    by (simp add: OLED_WIDTH_def OLED_HEIGHT_def)
  let ?m = "update_lumamap_mem ssd1306 luma_decay luma_inc (luma_pixmap g_ctx)"
  have 1: "luma_pixmap (ssd1306_gl_update_lumamap ssd1306 luma_decay luma_inc g_ctx) = fst ?m"
    by (simp add: ssd1306_gl_update_lumamap_def)
  have 2: "length (fst ?m) = OLED_WIDTH * OLED_HEIGHT"
    using len by (simp add: length_update_lumamap_mem OLED_WIDTH_def OLED_HEIGHT_def)
  have 3: "distinct (snd ?m)"
    by (simp add: snd_update_lumamap_mem distinct_all_cells)
  have 4: "set (snd ?m) = {..<OLED_WIDTH * OLED_HEIGHT}"
    by (simp add: snd_update_lumamap_mem set_all_cells OLED_WIDTH_def OLED_HEIGHT_def)
  have 5: "\<forall>page<OLED_HEIGHT div 8. \<forall>col<OLED_WIDTH. \<forall>bitIndex<8.
            uint (fst ?m ! cell_index col (page * 8 + bitIndex)) =
              spec_luma (uint (luma_pixmap g_ctx ! cell_index col (page * 8 + bitIndex)))
                (bit (ssd1306 page col) bitIndex) (uint luma_decay) (uint luma_inc)"
    using update_lumamap_mem_pixel [OF len]
    by (simp add: OLED_WIDTH_def OLED_HEIGHT_def)
  show ?thesis
    unfolding Let_def split_beta using 1 2 3 4 5 by blast
qed

theorem lumamap_visits_each_cell_once_witness:
  "length (luma_pixmap (g_ctx_zero\<lparr>luma_pixmap := replicate 8192 7\<rparr>)) = OLED_WIDTH * OLED_HEIGHT \<and>
   uint (luma_pixmap (ssd1306_gl_update_lumamap (\<lambda>page col. 5) 3 10
           (g_ctx_zero\<lparr>luma_pixmap := replicate 8192 7\<rparr>)) ! cell_index 5 10) = 14 \<and>
   uint (luma_pixmap (ssd1306_gl_update_lumamap (\<lambda>page col. 5) 3 10
           (g_ctx_zero\<lparr>luma_pixmap := replicate 8192 7\<rparr>)) ! cell_index 5 9) = 4 \<and>
   distinct (snd (update_lumamap_mem (\<lambda>page col. 5) 3 10 (replicate 8192 7)))"
proof -
  let ?g = "g_ctx_zero\<lparr>luma_pixmap := replicate 8192 7\<rparr>"
  have len: "length (luma_pixmap ?g) = OLED_WIDTH * OLED_HEIGHT"
    by (simp add: OLED_WIDTH_def OLED_HEIGHT_def)
  note t = lumamap_visits_each_cell_once [OF len, of "\<lambda>page col. 5" 3 10,
      unfolded Let_def split_beta]
  from t have px: "\<forall>page<OLED_HEIGHT div 8. \<forall>col<OLED_WIDTH. \<forall>bitIndex<8.
            uint (luma_pixmap (ssd1306_gl_update_lumamap (\<lambda>page col. 5) 3 10 ?g)
                    ! cell_index col (page * 8 + bitIndex)) =
              spec_luma (uint (luma_pixmap ?g ! cell_index col (page * 8 + bitIndex)))
                (bit (5::u8) bitIndex) 3 10"
    by simp
  have v: "spec_luma 7 (bit (5::u8) 2) 3 10 = 14" "spec_luma 7 (bit (5::u8) 1) 3 10 = 4"
    by (simp_all add: spec_luma_def spec_clamp_def bit_iff_odd_drop_bit)
  have less: "(1::nat) < OLED_HEIGHT div 8" "(5::nat) < OLED_WIDTH"
    by (simp_all add: OLED_WIDTH_def OLED_HEIGHT_def)
  have a: "uint (luma_pixmap (ssd1306_gl_update_lumamap (\<lambda>page col. 5) 3 10 ?g) ! cell_index 5 10) = 14"
    using px [rule_format, of 1 5 2, OF less] v(1)
    by (simp add: OLED_WIDTH_def OLED_HEIGHT_def cell_index_def)
  have b: "uint (luma_pixmap (ssd1306_gl_update_lumamap (\<lambda>page col. 5) 3 10 ?g) ! cell_index 5 9) = 4"
    using px [rule_format, of 1 5 1, OF less] v(2)
    by (simp add: OLED_WIDTH_def OLED_HEIGHT_def cell_index_def)
  from t have c: "distinct (snd (update_lumamap_mem (\<lambda>page col. 5) 3 10 (replicate 8192 7)))"
    by simp
  show ?thesis using len a b c by blast
qed


subsection \<open>Sequences of updates\<close>

lemma pixmap_size: "OLED_WIDTH * OLED_HEIGHT = 8192"
  by (simp add: OLED_WIDTH_def OLED_HEIGHT_def)

lemma length_ssd1306_gl_update_lumamap:
  "length (luma_pixmap (ssd1306_gl_update_lumamap v d i g)) = length (luma_pixmap g)"
  by (simp add: ssd1306_gl_update_lumamap_def length_update_lumamap_mem)

lemma ssd1306_gl_update_lumamap_nth:
  assumes "length (luma_pixmap g) = 8192" "j < 8192"
  shows "luma_pixmap (ssd1306_gl_update_lumamap v d i g) ! j =
     luma_update (luma_pixmap g ! j) (drop_bit ((j div 128) mod 8) (v (j div 1024) (j mod 128))) d i"
  using update_lumamap_mem_nth [OF assms] by (simp add: ssd1306_gl_update_lumamap_def)

lemma length_lumamap_calls:
  "length (luma_pixmap (lumamap_calls calls g)) = length (luma_pixmap g)"
  by (induction calls g rule: lumamap_calls.induct)
    (simp_all add: length_ssd1306_gl_update_lumamap)

lemma frame_bit_cell:
  "frame_bit v (j mod 128) (j div 128) = bit (drop_bit ((j div 128) mod 8) (v (j div 1024) (j mod 128))) 0"
  using div_mult2_eq [of j 128 8] by (simp add: frame_bit_def bit_drop_bit_eq)

text \<open>
  Claim C2. After every sequence of luminance map updates (any frames, decays and
  increments) from the zeroed pixmap, each cell lies in \<open>[0, 255]\<close>, and any further
  call saturates instead of wrapping: the \<^verbatim>\<open>int16_t\<close> value that line 153 stores is
  the clamped exact sum, lies in \<open>[0, 255]\<close> and is the cell's new value.
\<close>

theorem lumamap_cells_saturate:
  "(let g = lumamap_calls calls g_ctx_zero
    in length (luma_pixmap g) = OLED_WIDTH * OLED_HEIGHT \<and>
       (\<forall>j<OLED_WIDTH * OLED_HEIGHT.
          0 \<le> uint (luma_pixmap g ! j) \<and> uint (luma_pixmap g ! j) \<le> 255 \<and>
          (\<forall>ssd1306 luma_decay luma_inc.
             let luma = luma_clamped (luma_pixmap g ! j)
                   (drop_bit ((j div OLED_WIDTH) mod 8)
                      (ssd1306 (j div (8 * OLED_WIDTH)) (j mod OLED_WIDTH)))
                   luma_decay luma_inc
             in 0 \<le> sint luma \<and> sint luma \<le> 255 \<and>
                sint luma =
                  spec_luma (uint (luma_pixmap g ! j))
                    (frame_bit ssd1306 (j mod OLED_WIDTH) (j div OLED_WIDTH))
                    (uint luma_decay) (uint luma_inc) \<and>
                uint (luma_pixmap (ssd1306_gl_update_lumamap ssd1306 luma_decay luma_inc g) ! j) =
                  sint luma)))"
proof -
  let ?g = "lumamap_calls calls g_ctx_zero"
  have len: "length (luma_pixmap ?g) = 8192"
    by (simp add: length_lumamap_calls g_ctx_zero_def pixmap_size)
  have cell: "0 \<le> uint (luma_pixmap ?g ! j) \<and> uint (luma_pixmap ?g ! j) \<le> 255" for j
    using uint_u8_bounds [of "luma_pixmap ?g ! j"] by simp
  have step: "0 \<le> sint (luma_clamped (luma_pixmap ?g ! j)
                   (drop_bit ((j div 128) mod 8) (v (j div 1024) (j mod 128))) d i) \<and>
      sint (luma_clamped (luma_pixmap ?g ! j)
                   (drop_bit ((j div 128) mod 8) (v (j div 1024) (j mod 128))) d i) \<le> 255 \<and>
      sint (luma_clamped (luma_pixmap ?g ! j)
                   (drop_bit ((j div 128) mod 8) (v (j div 1024) (j mod 128))) d i) =
        spec_luma (uint (luma_pixmap ?g ! j)) (frame_bit v (j mod 128) (j div 128)) (uint d) (uint i) \<and>
      uint (luma_pixmap (ssd1306_gl_update_lumamap v d i ?g) ! j) =
        sint (luma_clamped (luma_pixmap ?g ! j)
                   (drop_bit ((j div 128) mod 8) (v (j div 1024) (j mod 128))) d i)"
    if "j < 8192" for j v d i
    using spec_luma_range
    by (simp add: ssd1306_gl_update_lumamap_nth [OF len that] uint_luma_update
        sint_luma_clamped frame_bit_cell)
  show ?thesis
    unfolding Let_def pixmap_size using len cell step
    by (simp add: OLED_WIDTH_def spec_luma_range)
qed


theorem lumamap_cells_saturate_witness:
  "uint (luma_pixmap (lumamap_calls [(\<lambda>page col. 255, 0, 200), (\<lambda>page col. 255, 0, 200)]
           g_ctx_zero) ! 0) = 255"
proof -
  let ?f = "(\<lambda>page col. 255) :: vram"
  have z: "(0::nat) < OLED_WIDTH * OLED_HEIGHT" by (simp add: pixmap_size)
  have g0: "luma_pixmap g_ctx_zero ! 0 = 0"
    by (simp add: g_ctx_zero_def pixmap_size)
  have b: "frame_bit ?f (0 mod OLED_WIDTH) (0 div OLED_WIDTH)"
    by (simp add: frame_bit_def)
  have 1: "uint (luma_pixmap (ssd1306_gl_update_lumamap ?f 0 200 g_ctx_zero) ! 0) = 200"
    using lumamap_cells_saturate [of "[]", unfolded Let_def, THEN conjunct2, rule_format, OF z,
        THEN conjunct2, THEN conjunct2, rule_format, of ?f 0 200] g0 b
    by (simp add: spec_luma_def spec_clamp_def)
  have 2: "uint (luma_pixmap (ssd1306_gl_update_lumamap ?f 0 200
              (ssd1306_gl_update_lumamap ?f 0 200 g_ctx_zero)) ! 0) = 255"
    using lumamap_cells_saturate [of "[(?f, 0, 200)]", unfolded Let_def, THEN conjunct2,
        rule_format, OF z, THEN conjunct2, THEN conjunct2, rule_format, of ?f 0 200] 1 b
    by (simp add: spec_luma_def spec_clamp_def)
  then show ?thesis by simp
qed

subsection \<open>Decay without increment\<close>

lemma decay_step_arith:
  "0 \<le> x \<Longrightarrow> x \<le> 255 \<Longrightarrow> 0 \<le> m \<Longrightarrow> 0 \<le> dd \<Longrightarrow>
     spec_clamp (max 0 (x - m) - dd) 0 255 = max 0 (x - (m + dd))"
  by (simp add: spec_clamp_def max_def)

lemma uint_decay_iter:
  assumes "length (luma_pixmap g) = 8192" "j < 8192"
  shows "length (luma_pixmap ((ssd1306_gl_update_lumamap v d 0 ^^ n) g)) = 8192 \<and>
     uint (luma_pixmap ((ssd1306_gl_update_lumamap v d 0 ^^ n) g) ! j) =
       max 0 (uint (luma_pixmap g ! j) - int n * uint d)"
proof (induction n)
  case 0
  then show ?case using assms(1) uint_u8_bounds [of "luma_pixmap g ! j"] by simp
next
  case (Suc n)
  let ?g = "(ssd1306_gl_update_lumamap v d 0 ^^ n) g"
  have len: "length (luma_pixmap ?g) = 8192" using Suc by simp
  have "uint (luma_pixmap (ssd1306_gl_update_lumamap v d 0 ?g) ! j) =
      spec_clamp (uint (luma_pixmap ?g ! j) - uint d) 0 255"
    by (simp add: ssd1306_gl_update_lumamap_nth [OF len assms(2)] uint_luma_update
        sint_luma_clamped spec_luma_def)
  also have "\<dots> = spec_clamp (max 0 (uint (luma_pixmap g ! j) - int n * uint d) - uint d) 0 255"
    using Suc by simp
  also have "\<dots> = max 0 (uint (luma_pixmap g ! j) - (int n * uint d + uint d))"
    using uint_u8_bounds [of "luma_pixmap g ! j"] uint_u8_bounds [of d]
    by (intro decay_step_arith) simp_all
  also have "int n * uint d + uint d = int (Suc n) * uint d"
    by (simp add: algebra_simps)
  finally show ?case
    using len by (simp add: length_ssd1306_gl_update_lumamap)
qed

lemma ceil_mult_ge:
  fixes d :: nat
  assumes "0 < d" "(255 + d - 1) div d \<le> n"
  shows "255 \<le> n * d"
proof -
  have "(254 + d) div d * d + (254 + d) mod d = 254 + d" by (rule div_mult_mod_eq)
  moreover have "(254 + d) mod d < d" using assms(1) by simp
  ultimately have "255 \<le> ((254 + d) div d) * d" by linarith
  also have "\<dots> \<le> n * d" using assms(2) by (simp add: mult_le_mono1)
  finally show ?thesis .
qed

text \<open>
  Claim C7. For a decay \<open>d > 0\<close> and any pixmap, repeated updates with the all-zero
  frame and increment 0 leave every cell at 0 after \<open>ceil (255 / d)\<close> calls and after
  any larger number of calls; a cell that is 0 is 0 after a further such call.
\<close>

theorem lumamap_decay_converges:
  "length (luma_pixmap g_ctx) = OLED_WIDTH * OLED_HEIGHT \<Longrightarrow> luma_decay \<noteq> 0 \<Longrightarrow>
     (\<forall>n\<ge>(255 + unat luma_decay - 1) div unat luma_decay. \<forall>j<OLED_WIDTH * OLED_HEIGHT.
        luma_pixmap ((ssd1306_gl_update_lumamap (\<lambda>page col. 0) luma_decay 0 ^^ n) g_ctx) ! j = 0) \<and>
     (\<forall>j<OLED_WIDTH * OLED_HEIGHT. luma_pixmap g_ctx ! j = 0 \<longrightarrow>
        luma_pixmap (ssd1306_gl_update_lumamap (\<lambda>page col. 0) luma_decay 0 g_ctx) ! j = 0)"
proof -
  assume "length (luma_pixmap g_ctx) = OLED_WIDTH * OLED_HEIGHT" and d: "luma_decay \<noteq> 0"
  then have len: "length (luma_pixmap g_ctx) = 8192" by (simp add: pixmap_size)
  let ?upd = "ssd1306_gl_update_lumamap (\<lambda>page col. 0) luma_decay 0"
  have pos: "0 < unat luma_decay" using d by (simp add: unat_gt_0)
  have conv: "luma_pixmap ((?upd ^^ n) g_ctx) ! j = 0"
    if n: "(255 + unat luma_decay - 1) div unat luma_decay \<le> n" and j: "j < 8192" for n j
  proof -
    have "255 \<le> n * unat luma_decay" using pos n by (rule ceil_mult_ge)
    then have "255 \<le> int n * uint luma_decay"
      by (metis of_nat_le_iff of_nat_mult of_nat_numeral uint_nat)
    then have "uint (luma_pixmap ((?upd ^^ n) g_ctx) ! j) = 0"
      using uint_decay_iter [OF len j, where v = "\<lambda>page col. 0" and d = luma_decay and n = n]
        uint_u8_bounds [of "luma_pixmap g_ctx ! j"] by simp
    then show ?thesis by (simp add: uint_0_iff)
  qed
  have stay: "luma_pixmap (?upd g_ctx) ! j = 0" if "j < 8192" "luma_pixmap g_ctx ! j = 0" for j
  proof -
    have "uint (luma_pixmap ((?upd ^^ 1) g_ctx) ! j) = 0"
      using uint_decay_iter [OF len that(1), where v = "\<lambda>page col. 0" and d = luma_decay and n = 1] that(2)
        uint_u8_bounds [of luma_decay] by simp
    then show ?thesis by (simp add: uint_0_iff)
  qed
  show ?thesis using conv stay by (simp add: pixmap_size)
qed


theorem lumamap_decay_converges_witness:
  "length (luma_pixmap (g_ctx_zero\<lparr>luma_pixmap := replicate 8192 255\<rparr>)) = OLED_WIDTH * OLED_HEIGHT \<and>
   (100::u8) \<noteq> 0 \<and>
   (255 + unat (100::u8) - 1) div unat (100::u8) = 3 \<and>
   luma_pixmap ((ssd1306_gl_update_lumamap (\<lambda>page col. 0) 100 0 ^^ 3)
     (g_ctx_zero\<lparr>luma_pixmap := replicate 8192 255\<rparr>)) ! 0 = 0"
proof -
  let ?g = "g_ctx_zero\<lparr>luma_pixmap := replicate 8192 255\<rparr>"
  have len: "length (luma_pixmap ?g) = OLED_WIDTH * OLED_HEIGHT"
    by (simp add: pixmap_size)
  have d: "(100::u8) \<noteq> 0" by simp
  have n: "(255 + unat (100::u8) - 1) div unat (100::u8) = 3" by simp
  have z: "(0::nat) < OLED_WIDTH * OLED_HEIGHT" by (simp add: pixmap_size)
  have "luma_pixmap ((ssd1306_gl_update_lumamap (\<lambda>page col. 0) 100 0 ^^ 3) ?g) ! 0 = 0"
    using lumamap_decay_converges [OF len d, THEN conjunct1, rule_format, of 3 0] n z
    by simp
  then show ?thesis using len d n by blast
qed


subsection \<open>Display scaling in 32-bit arithmetic\<close>

lemma stb31: "- 2147483648 \<le> k \<Longrightarrow> k < 2147483648 \<Longrightarrow> signed_take_bit 31 (k::int) = k"
  by (rule signed_take_bit_int_eq_self) simp_all

lemma sint32_of_int:
  "- 2147483648 \<le> k \<Longrightarrow> k < 2147483648 \<Longrightarrow> sint (word_of_int k :: int32) = k"
  by (simp only: sint_sbintrunc') (simp add: stb31)

lemma sint32_bounds: "- 2147483648 \<le> sint (a::int32) \<and> sint a < 2147483648"
  using sint_ge [of a] sint_lt [of a] by simp

lemma sint_int_div:
  assumes "0 < n" "n < 2147483648" "- 2147483648 < sint a"
  shows "sint (int_div a (word_of_int n)) = sint a sdiv n"
proof -
  have n: "sint (word_of_int n :: int32) = n"
    using assms by (intro sint32_of_int) simp_all
  have "- \<bar>sint a\<bar> \<le> sint a sdiv n \<and> sint a sdiv n \<le> \<bar>sint a\<bar>"
    using sdiv_int_range [of "sint a" n] by simp
  then have "- 2147483648 \<le> sint a sdiv n \<and> sint a sdiv n < 2147483648"
    using assms(3) sint32_bounds [of a] by linarith
  then show ?thesis
    unfolding int_div_def n by (intro sint32_of_int) simp_all
qed

lemma sdiv_nonneg: "0 \<le> k \<Longrightarrow> 0 < n \<Longrightarrow> k sdiv n = k div (n::int)"
  by (simp add: signed_divide_int_def sgn_if)

lemma sint_mult32:
  assumes "- 2147483648 \<le> sint a * sint b" "sint a * sint b < 2147483648"
  shows "sint (a * b :: int32) = sint a * sint b"
  using assms by (simp add: sint_word_ariths stb31)

lemma sint_diff32:
  assumes "- 2147483648 \<le> sint a - sint b" "sint a - sint b < 2147483648"
  shows "sint (a - b :: int32) = sint a - sint b"
  using assms by (simp add: sint_word_ariths stb31)

lemma calculate_display_scaling_unfold:
  "calculate_display_scaling w h g =
     (if 65536 <s (128 * cand_scale w h) * (64 * cand_scale w h)
      then g\<lparr>scale := 1, offset_x := int_div (w - 128) 2, offset_y := int_div (h - 64) 2,
             canvas_width := 128, canvas_height := 64\<rparr>
      else g\<lparr>scale := cand_scale w h,
             offset_x := int_div (w - 128 * cand_scale w h) 2,
             offset_y := int_div (h - 64 * cand_scale w h) 2,
             canvas_width := 128 * cand_scale w h, canvas_height := 64 * cand_scale w h\<rparr>)"
  by (simp add: calculate_display_scaling_def cand_scale_def Let_def OLED_WIDTH_def
      OLED_HEIGHT_def MAX_CANVAS_SIZE_def)

lemma sint_cand_scale:
  assumes "0 \<le> sint w" "0 \<le> sint h"
  shows "sint (cand_scale w h) = spec_scale (sint w) (sint h)"
proof -
  have h: "sint (int_div h 64) = sint h div 64"
    using sint_int_div [of 64 h] assms(2) by (simp add: sdiv_nonneg)
  have w: "sint (int_div w 128) = sint w div 128"
    using sint_int_div [of 128 w] assms(1) by (simp add: sdiv_nonneg)
  show ?thesis
    by (simp add: cand_scale_def Let_def word_sless_alt h w spec_scale_def
        OLED_WIDTH_def OLED_HEIGHT_def min_def max_def)
qed

lemma spec_scale_bounds:
  assumes "0 \<le> w" "0 \<le> h"
  shows "1 \<le> spec_scale w h"
    and "128 * spec_scale w h \<le> max w 128"
    and "64 * spec_scale w h \<le> max h 64"
proof -
  show "1 \<le> spec_scale w h" by (simp add: spec_scale_def)
  have a: "128 * (w div 128) \<le> w" and b: "64 * (h div 64) \<le> h"
    by (simp_all add: algebra_simps)
  show "128 * spec_scale w h \<le> max w 128" using a
    by (simp add: spec_scale_def OLED_WIDTH_def OLED_HEIGHT_def min_def max_def)
  show "64 * spec_scale w h \<le> max h 64" using b
    by (simp add: spec_scale_def OLED_WIDTH_def OLED_HEIGHT_def min_def max_def)
qed


lemma spec_scale_mult_bounds:
  assumes "0 \<le> sint (w::int32)" "0 \<le> sint (h::int32)"
  shows "128 * spec_scale (sint w) (sint h) < 2147483648"
    and "64 * spec_scale (sint w) (sint h) < 2147483648"
    and "- 128 \<le> sint w - 128 * spec_scale (sint w) (sint h)"
    and "- 64 \<le> sint h - 64 * spec_scale (sint w) (sint h)"
  using spec_scale_bounds [OF assms] sint32_bounds [of w] sint32_bounds [of h] assms
  by (simp_all add: max_def split: if_splits)

lemma sint_scaled:
  assumes "0 \<le> sint w" "0 \<le> sint h"
  shows "sint (128 * cand_scale w h) = 128 * spec_scale (sint w) (sint h)"
    and "sint (64 * cand_scale w h) = 64 * spec_scale (sint w) (sint h)"
proof -
  note b = spec_scale_bounds(1) [OF assms] spec_scale_mult_bounds [OF assms]
  have c: "sint (cand_scale w h) = spec_scale (sint w) (sint h)"
    using assms by (rule sint_cand_scale)
  have "sint ((128::int32) * cand_scale w h) = sint (128::int32) * sint (cand_scale w h)"
    using b by (intro sint_mult32; simp only: c; simp)
  then show "sint (128 * cand_scale w h) = 128 * spec_scale (sint w) (sint h)"
    by (simp add: c)
  have "sint ((64::int32) * cand_scale w h) = sint (64::int32) * sint (cand_scale w h)"
    using b by (intro sint_mult32; simp only: c; simp)
  then show "sint (64 * cand_scale w h) = 64 * spec_scale (sint w) (sint h)"
    by (simp add: c)
qed

lemma sint_offsets:
  assumes "0 \<le> sint w" "0 \<le> sint h"
  shows "sint (int_div (w - 128 * cand_scale w h) 2) =
           (sint w - 128 * spec_scale (sint w) (sint h)) sdiv 2"
    and "sint (int_div (h - 64 * cand_scale w h) 2) =
           (sint h - 64 * spec_scale (sint w) (sint h)) sdiv 2"
proof -
  note b = spec_scale_bounds(1) [OF assms] spec_scale_mult_bounds [OF assms]
  have dw: "sint (w - 128 * cand_scale w h) = sint w - 128 * spec_scale (sint w) (sint h)"
    using b assms sint32_bounds [of w]
    by (subst sint_diff32; simp only: sint_scaled [OF assms]; linarith?)
  have dh: "sint (h - 64 * cand_scale w h) = sint h - 64 * spec_scale (sint w) (sint h)"
    using b assms sint32_bounds [of h]
    by (subst sint_diff32; simp only: sint_scaled [OF assms]; linarith?)
  have "sint (int_div (w - 128 * cand_scale w h) (word_of_int 2)) =
      sint (w - 128 * cand_scale w h) sdiv 2"
    using b by (intro sint_int_div; simp only: dw; linarith?)
  then show "sint (int_div (w - 128 * cand_scale w h) 2) =
           (sint w - 128 * spec_scale (sint w) (sint h)) sdiv 2"
    by (simp add: dw)
  have "sint (int_div (h - 64 * cand_scale w h) (word_of_int 2)) =
      sint (h - 64 * cand_scale w h) sdiv 2"
    using b by (intro sint_int_div; simp only: dh; linarith?)
  then show "sint (int_div (h - 64 * cand_scale w h) 2) =
           (sint h - 64 * spec_scale (sint w) (sint h)) sdiv 2"
    by (simp add: dh)
qed

lemma sint_total_pixels:
  assumes "0 \<le> sint w" "0 \<le> sint h" "spec_scale (sint w) (sint h) < 512"
  shows "sint ((128 * cand_scale w h) * (64 * cand_scale w h)) =
     8192 * (spec_scale (sint w) (sint h) * spec_scale (sint w) (sint h))"
proof -
  define p where "p = spec_scale (sint w) (sint h) * spec_scale (sint w) (sint h)"
  have s1: "1 \<le> spec_scale (sint w) (sint h)"
    using spec_scale_bounds(1) [OF assms(1,2)] .
  have "p \<le> 511 * 511"
    unfolding p_def using s1 assms(3) by (intro mult_mono) simp_all
  moreover have "0 \<le> p" unfolding p_def by simp
  moreover have e: "(128 * spec_scale (sint w) (sint h)) * (64 * spec_scale (sint w) (sint h)) = 8192 * p"
    unfolding p_def by simp
  ultimately have r: "- 2147483648 \<le> (128 * spec_scale (sint w) (sint h)) * (64 * spec_scale (sint w) (sint h))"
    "(128 * spec_scale (sint w) (sint h)) * (64 * spec_scale (sint w) (sint h)) < 2147483648"
    by linarith+
  have "sint ((128 * cand_scale w h) * (64 * cand_scale w h)) =
      sint (128 * cand_scale w h) * sint (64 * cand_scale w h)"
    by (rule sint_mult32; simp only: sint_scaled [OF assms(1,2)]; rule r)
  then show ?thesis
    unfolding sint_scaled [OF assms(1,2)] e p_def .
qed

lemma spec_scale_small:
  assumes "0 \<le> w" "0 \<le> h" "w < 65536 \<or> h < 32768"
  shows "spec_scale w h < 512"
proof -
  have "w < 65536 \<Longrightarrow> w div 128 < 512" by simp
  moreover have "h < 32768 \<Longrightarrow> h div 64 < 512" by simp
  ultimately show ?thesis using assms(3)
    by (auto simp add: spec_scale_def OLED_WIDTH_def OLED_HEIGHT_def min_def max_def)
qed

lemma square_gt_8_iff:
  fixes s :: int
  assumes "1 \<le> s"
  shows "8 < s * s \<longleftrightarrow> 3 \<le> s"
proof
  assume g: "8 < s * s"
  show "3 \<le> s"
  proof (rule ccontr)
    assume "\<not> 3 \<le> s"
    then have "s * s \<le> 2 * 2" using assms by (intro mult_mono) simp_all
    then show False using g by simp
  qed
next
  assume "3 \<le> s"
  then have "3 * 3 \<le> s * s" by (intro mult_mono) simp_all
  then show "8 < s * s" by simp
qed

lemma guard_iff:
  assumes "0 \<le> sint w" "0 \<le> sint h" "spec_scale (sint w) (sint h) < 512"
  shows "65536 <s (128 * cand_scale w h) * (64 * cand_scale w h) \<longleftrightarrow>
     3 \<le> spec_scale (sint w) (sint h)"
proof -
  have "sint (65536::int32) = 65536" by simp
  then show ?thesis
    unfolding word_sless_alt sint_total_pixels [OF assms]
    using square_gt_8_iff [OF spec_scale_bounds(1) [OF assms(1,2)]] by simp
qed

lemma no_fallback:
  assumes "0 \<le> sint w" "0 \<le> sint h" "spec_scale (sint w) (sint h) \<le> 2"
  shows "calculate_display_scaling w h g =
     g\<lparr>scale := cand_scale w h,
       offset_x := int_div (w - 128 * cand_scale w h) 2,
       offset_y := int_div (h - 64 * cand_scale w h) 2,
       canvas_width := 128 * cand_scale w h, canvas_height := 64 * cand_scale w h\<rparr>"
proof -
  have "spec_scale (sint w) (sint h) < 512" using assms(3) by simp
  then have "\<not> 65536 <s (128 * cand_scale w h) * (64 * cand_scale w h)"
    using guard_iff [OF assms(1,2)] assms(3) by simp
  then show ?thesis by (simp only: calculate_display_scaling_unfold if_False)
qed

text \<open>
  Claim C3, as amended. For every surface size \<open>(w, h)\<close> (non-negative) whose scale
  \<open>s = max 1 (min (h div 64) (w div 128))\<close> is at most 2, the computation yields
  scale \<open>s\<close> (at least 1), the canvas \<open>128 * s\<close> by \<open>64 * s\<close> and the offsets \<open>(w - 128 * s) / 2\<close> and \<open>(h - 64 * s) / 2\<close> by the
  truncating division of C, which may be negative. In particular the surface 384 by
  168 yields scale 2, the canvas 256 by 128 and the offsets 64 and 20.
\<close>

theorem scaling_geometry_without_fallback:
  "(0 \<le> sint w \<longrightarrow> 0 \<le> sint h \<longrightarrow> spec_scale (sint w) (sint h) \<le> 2 \<longrightarrow>
     (let g' = calculate_display_scaling w h g_ctx; s = spec_scale (sint w) (sint h)
      in 1 \<le> s \<and>
         sint (scale g') = s \<and>
         sint (canvas_width g') = int OLED_WIDTH * s \<and>
         sint (canvas_height g') = int OLED_HEIGHT * s \<and>
         sint (offset_x g') = (sint w - int OLED_WIDTH * s) sdiv 2 \<and>
         sint (offset_y g') = (sint h - int OLED_HEIGHT * s) sdiv 2)) \<and>
   (let g' = calculate_display_scaling 384 168 g_ctx
    in sint (scale g') = 2 \<and> sint (canvas_width g') = 256 \<and> sint (canvas_height g') = 128 \<and>
       sint (offset_x g') = 64 \<and> sint (offset_y g') = 20)"
proof -
  have general: "1 \<le> spec_scale (sint w) (sint h) \<and>
      sint (scale (calculate_display_scaling w h g_ctx)) = spec_scale (sint w) (sint h) \<and>
      sint (canvas_width (calculate_display_scaling w h g_ctx)) =
        int OLED_WIDTH * spec_scale (sint w) (sint h) \<and>
      sint (canvas_height (calculate_display_scaling w h g_ctx)) =
        int OLED_HEIGHT * spec_scale (sint w) (sint h) \<and>
      sint (offset_x (calculate_display_scaling w h g_ctx)) =
        (sint w - int OLED_WIDTH * spec_scale (sint w) (sint h)) sdiv 2 \<and>
      sint (offset_y (calculate_display_scaling w h g_ctx)) =
        (sint h - int OLED_HEIGHT * spec_scale (sint w) (sint h)) sdiv 2"
    if a: "0 \<le> sint w" "0 \<le> sint h" and s: "spec_scale (sint w) (sint h) \<le> 2"
    for w h :: int32
    unfolding no_fallback [OF a s]
    using spec_scale_bounds(1) [OF a]
    by (simp add: sint_cand_scale [OF a] sint_scaled [OF a] sint_offsets [OF a]
        OLED_WIDTH_def OLED_HEIGHT_def)
  have a: "0 \<le> sint (384::int32)" "0 \<le> sint (168::int32)" by simp_all
  have s: "spec_scale (sint (384::int32)) (sint (168::int32)) = 2"
    by (simp add: spec_scale_def OLED_WIDTH_def OLED_HEIGHT_def)
  then have s2: "spec_scale (sint (384::int32)) (sint (168::int32)) \<le> 2" by simp
  have particular: "sint (scale (calculate_display_scaling 384 168 g_ctx)) = 2 \<and>
      sint (canvas_width (calculate_display_scaling 384 168 g_ctx)) = 256 \<and>
      sint (canvas_height (calculate_display_scaling 384 168 g_ctx)) = 128 \<and>
      sint (offset_x (calculate_display_scaling 384 168 g_ctx)) = 64 \<and>
      sint (offset_y (calculate_display_scaling 384 168 g_ctx)) = 20"
    using general [OF a s2] unfolding s by (simp add: OLED_WIDTH_def OLED_HEIGHT_def)
  show ?thesis
    unfolding Let_def using general [of w h] particular by blast
qed

text \<open>The amended claim at the surface 50 by 50, smaller than the source: the scale is
  1, not 0, and the offsets are negative.\<close>

theorem scaling_geometry_without_fallback_witness:
  "0 \<le> sint (50::int32) \<and> spec_scale (sint (50::int32)) (sint (50::int32)) \<le> 2 \<and>
   sint (scale (calculate_display_scaling 50 50 g_ctx_zero)) = 1 \<and>
   sint (canvas_width (calculate_display_scaling 50 50 g_ctx_zero)) = 128 \<and>
   sint (canvas_height (calculate_display_scaling 50 50 g_ctx_zero)) = 64 \<and>
   sint (offset_x (calculate_display_scaling 50 50 g_ctx_zero)) = - 39 \<and>
   sint (offset_y (calculate_display_scaling 50 50 g_ctx_zero)) = - 7"
proof -
  have a: "0 \<le> sint (50::int32)" by simp
  have s: "spec_scale (sint (50::int32)) (sint (50::int32)) = 1"
    by (simp add: spec_scale_def OLED_WIDTH_def OLED_HEIGHT_def)
  then have s2: "spec_scale (sint (50::int32)) (sint (50::int32)) \<le> 2" by simp
  have d: "(- 78 :: int) sdiv 2 = - 39" "(- 14 :: int) sdiv 2 = - 7"
    by (simp_all add: signed_divide_int_def)
  show ?thesis
    using scaling_geometry_without_fallback [of 50 50 g_ctx_zero, THEN conjunct1,
        rule_format, OF a a s2, unfolded Let_def s] a s2 d
    by (simp add: OLED_WIDTH_def OLED_HEIGHT_def)
qed

text \<open>
  Claim C3 as stated fails where the capacity check of lines 360 to 368 fires: for the
  surface 384 by 192 the scale of the claim is 3, and the computation returns scale 1
  with the canvas 128 by 64 and offset 128.
\<close>

theorem scaling_384x192_counterexample:
  "spec_scale (sint (384::int32)) (sint (192::int32)) = 3 \<and>
   sint (scale (calculate_display_scaling 384 192 g_ctx_zero)) = 1 \<and>
   sint (canvas_width (calculate_display_scaling 384 192 g_ctx_zero)) = 128 \<and>
   sint (offset_x (calculate_display_scaling 384 192 g_ctx_zero)) = 128"
  by (simp add: spec_scale_def calculate_display_scaling_def int_div_def Let_def
      OLED_WIDTH_def OLED_HEIGHT_def MAX_CANVAS_SIZE_def g_ctx_zero_def word_sless_alt)

text \<open>
  The capacity check where the product of line 361 does not overflow, that is for
  surfaces narrower than 65536 or lower than 32768: the final canvas fits the buffer,
  the final scale is 1 or 2, and a scale of 3 or more falls back to the unscaled canvas.
\<close>

lemma capacity_guard_bounded:
  assumes "0 \<le> sint w" "0 \<le> sint h" "sint w < 65536 \<or> sint h < 32768"
  shows "sint (canvas_width (calculate_display_scaling w h g)) *
           sint (canvas_height (calculate_display_scaling w h g)) \<le> int MAX_CANVAS_SIZE"
    and "sint (scale (calculate_display_scaling w h g)) = 1 \<or>
         sint (scale (calculate_display_scaling w h g)) = 2"
    and "3 \<le> spec_scale (sint w) (sint h) \<Longrightarrow>
         calculate_display_scaling w h g =
           g\<lparr>scale := 1, offset_x := int_div (w - 128) 2, offset_y := int_div (h - 64) 2,
             canvas_width := 128, canvas_height := 64\<rparr>"
proof -
  let ?s = "spec_scale (sint w) (sint h)"
  have small: "?s < 512" using assms by (rule spec_scale_small)
  note gi = guard_iff [OF assms(1,2) small]
  have s1: "1 \<le> ?s" using spec_scale_bounds(1) [OF assms(1,2)] .
  show fb: "3 \<le> ?s \<Longrightarrow>
         calculate_display_scaling w h g =
           g\<lparr>scale := 1, offset_x := int_div (w - 128) 2, offset_y := int_div (h - 64) 2,
             canvas_width := 128, canvas_height := 64\<rparr>"
    using gi by (simp only: calculate_display_scaling_unfold if_True)
  have nf: "calculate_display_scaling w h g =
     g\<lparr>scale := cand_scale w h,
       offset_x := int_div (w - 128 * cand_scale w h) 2,
       offset_y := int_div (h - 64 * cand_scale w h) 2,
       canvas_width := 128 * cand_scale w h, canvas_height := 64 * cand_scale w h\<rparr>"
    if "?s \<le> 2"
    using that by (rule no_fallback [OF assms(1,2)])
  consider "?s = 1" | "?s = 2" | "3 \<le> ?s" using s1 by linarith
  then show "sint (canvas_width (calculate_display_scaling w h g)) *
           sint (canvas_height (calculate_display_scaling w h g)) \<le> int MAX_CANVAS_SIZE"
  proof cases
    case 1
    then show ?thesis
      by (simp add: nf sint_scaled [OF assms(1,2)] MAX_CANVAS_SIZE_def OLED_WIDTH_def OLED_HEIGHT_def)
  next
    case 2
    then show ?thesis
      by (simp add: nf sint_scaled [OF assms(1,2)] MAX_CANVAS_SIZE_def OLED_WIDTH_def OLED_HEIGHT_def)
  next
    case 3
    then show ?thesis
      by (simp add: fb MAX_CANVAS_SIZE_def OLED_WIDTH_def OLED_HEIGHT_def)
  qed
  consider "?s = 1" | "?s = 2" | "3 \<le> ?s" using s1 by linarith
  then show "sint (scale (calculate_display_scaling w h g)) = 1 \<or>
         sint (scale (calculate_display_scaling w h g)) = 2"
  proof cases
    case 1
    then show ?thesis by (simp add: nf sint_cand_scale [OF assms(1,2)])
  next
    case 2
    then show ?thesis by (simp add: nf sint_cand_scale [OF assms(1,2)])
  next
    case 3
    then show ?thesis by (simp add: fb)
  qed
qed

text \<open>
  Claim C4 at the surface 65536 by 32768: the scale is 512, the product
  \<open>65536 * 32768 = 2 ^ 31\<close> of line 361 does not fit a 32-bit \<^verbatim>\<open>int\<close> and wraps to
  \<open>- 2 ^ 31\<close>, the check \<^verbatim>\<open>total_pixels > MAX_CANVAS_SIZE\<close> is false, and the canvas
  stays 65536 by 32768, beyond the 65536 pixels of the buffer.
\<close>

theorem capacity_guard_overflow:
  "sint (canvas_width (calculate_display_scaling 65536 32768 g_ctx_zero)) = 65536 \<and>
   sint (canvas_height (calculate_display_scaling 65536 32768 g_ctx_zero)) = 32768 \<and>
   int MAX_CANVAS_SIZE = 65536 \<and>
   sint ((65536::int32) * 32768) = - 2147483648"
  by (simp add: calculate_display_scaling_def int_div_def Let_def
      OLED_WIDTH_def OLED_HEIGHT_def MAX_CANVAS_SIZE_def g_ctx_zero_def word_sless_alt)

text \<open>
  Claim C9 at the same surface 65536 by 32768: the final scale is 512, neither 1 nor 2.
\<close>

theorem final_scale_overflow:
  "sint (scale (calculate_display_scaling 65536 32768 g_ctx_zero)) = 512"
  by (simp add: calculate_display_scaling_def int_div_def Let_def
      OLED_WIDTH_def OLED_HEIGHT_def MAX_CANVAS_SIZE_def g_ctx_zero_def word_sless_alt)

subsection \<open>Key handling\<close>

lemma key_to_button_e_unmapped: "key \<notin> mapped_keys \<Longrightarrow> key_to_button_e key = - 1"
  by (simp add: mapped_keys_def key_to_button_e_def)

lemma key_to_button_e_mapped:
  "key \<in> mapped_keys \<Longrightarrow> 0 \<le> key_to_button_e key \<and> key_to_button_e key < int BUTTON_COUNT"
  by (auto simp add: mapped_keys_def key_to_button_e_def BUTTON_COUNT_def KEY_UP_def KEY_DOWN_def
      KEY_LEFT_def KEY_RIGHT_def KEY_ENTER_def KEY_ESC_def)

text \<open>
  Claim C8. A key code outside the lookup table (Up, Down, Left, Right, Enter or
  \<open>z\<close>, Esc or \<open>x\<close>) maps to \<open>-1\<close> and the handler returns the state as it was: no
  button event, no change of a button state, no call that creates or resets the timer.
\<close>

theorem unmapped_key_is_ignored:
  "key \<notin> mapped_keys \<Longrightarrow>
     key_to_button_e key = - 1 \<and>
     lv_arduboy_emu_app_handle_input lv_timer_create key s = s \<and>
     emitted s (lv_arduboy_emu_app_handle_input lv_timer_create key s) = []"
  by (simp add: key_to_button_e_unmapped lv_arduboy_emu_app_handle_input_def emitted_def)

theorem unmapped_key_is_ignored_witness:
  "(99::u32) \<notin> mapped_keys \<and>
   lv_arduboy_emu_app_handle_input (Some 1) 99 input_init = input_init \<and>
   (65::u32) \<notin> mapped_keys \<and>
   lv_arduboy_emu_app_handle_input None 65
     \<lparr>key_states = [True, False, False, False, False, True], g_release_timer = Some 3,
      ext_calls = [Timer_reset]\<rparr> =
     \<lparr>key_states = [True, False, False, False, False, True], g_release_timer = Some 3,
      ext_calls = [Timer_reset]\<rparr>"
proof -
  have a: "(99::u32) \<notin> mapped_keys" "(65::u32) \<notin> mapped_keys"
    by (simp_all add: mapped_keys_def KEY_UP_def KEY_DOWN_def
      KEY_LEFT_def KEY_RIGHT_def KEY_ENTER_def KEY_ESC_def)
  show ?thesis
    using unmapped_key_is_ignored [OF a(1), of "Some 1" input_init]
      unmapped_key_is_ignored [OF a(2), of None "\<lparr>key_states = [True, False, False, False, False, True], g_release_timer = Some 3,
      ext_calls = [Timer_reset]\<rparr>"] a
    by simp
qed

lemma handle_input_pressed:
  "key_states s ! nat (key_to_button_e key) \<Longrightarrow>
     lv_arduboy_emu_app_handle_input lv_timer_create key s = s"
  by (simp add: lv_arduboy_emu_app_handle_input_def Let_def)

lemma handle_input_released:
  assumes "key \<in> mapped_keys" "\<not> key_states s ! nat (key_to_button_e key)"
  shows "lv_arduboy_emu_app_handle_input lv_timer_create key s =
     s\<lparr>key_states := (key_states s)[nat (key_to_button_e key) := True],
       g_release_timer := (if g_release_timer s = None then lv_timer_create else g_release_timer s),
       ext_calls := ext_calls s @ [Button_event (nat (key_to_button_e key)) True,
          if g_release_timer s = None then Timer_create 100 else Timer_reset]\<rparr>"
  using assms key_to_button_e_mapped [OF assms(1)]
  by (simp add: lv_arduboy_emu_app_handle_input_def Let_def)

lemma funpow_fixed: "f x = x \<Longrightarrow> (f ^^ n) x = x"
  by (induction n) simp_all

text \<open>
  Claim C5. For a mapped key whose button is released, the first delivery emits one
  press event for the button and sets its state; every later delivery of the same key
  (no timer callback in between) returns the state unchanged, so that any number of
  deliveries emits exactly one press event.
\<close>

theorem repeated_key_presses_once:
  "length (key_states s) = BUTTON_COUNT \<Longrightarrow> key \<in> mapped_keys \<Longrightarrow>
   \<not> key_states s ! nat (key_to_button_e key) \<Longrightarrow>
     (let b = nat (key_to_button_e key);
          s1 = lv_arduboy_emu_app_handle_input lv_timer_create key s
      in b < BUTTON_COUNT \<and>
         button_events (emitted s s1) = [(b, True)] \<and>
         key_states s1 = (key_states s)[b := True] \<and>
         key_states s1 ! b \<and>
         (\<forall>n. (lv_arduboy_emu_app_handle_input lv_timer_create key ^^ n) s1 = s1) \<and>
         (\<forall>n. button_events
                (emitted s ((lv_arduboy_emu_app_handle_input lv_timer_create key ^^ Suc n) s)) =
              [(b, True)]))"
proof -
  assume len: "length (key_states s) = BUTTON_COUNT" and k: "key \<in> mapped_keys"
    and r: "\<not> key_states s ! nat (key_to_button_e key)"
  let ?b = "nat (key_to_button_e key)"
  let ?h = "lv_arduboy_emu_app_handle_input lv_timer_create key"
  have b: "?b < BUTTON_COUNT" using key_to_button_e_mapped [OF k] by linarith
  note s1 = handle_input_released [OF k r, of lv_timer_create]
  have ev: "button_events (emitted s (?h s)) = [(?b, True)]"
    by (simp add: s1 emitted_def)
  have ks: "key_states (?h s) = (key_states s)[?b := True]" by (simp add: s1)
  have pressed: "key_states (?h s) ! ?b" using b len by (simp add: ks)
  have stable: "(?h ^^ n) (?h s) = ?h s" for n
    using handle_input_pressed [OF pressed] by (rule funpow_fixed)
  have "button_events (emitted s ((?h ^^ Suc n) s)) = [(?b, True)]" for n
    using stable [of n] ev by (simp only: funpow_Suc_right o_apply)
  then show ?thesis
    unfolding Let_def using b ev ks pressed stable by blast
qed


theorem repeated_key_presses_once_witness:
  "length (key_states input_init) = BUTTON_COUNT \<and> KEY_UP \<in> mapped_keys \<and>
   \<not> key_states input_init ! nat (key_to_button_e KEY_UP) \<and>
   button_events (emitted input_init
     (lv_arduboy_emu_app_handle_input (Some 1) KEY_UP
        (lv_arduboy_emu_app_handle_input (Some 1) KEY_UP input_init))) = [(0, True)]"
proof -
  have a: "length (key_states input_init) = BUTTON_COUNT" by (simp add: input_init_def)
  have k: "KEY_UP \<in> mapped_keys" by (simp add: mapped_keys_def)
  have b: "nat (key_to_button_e KEY_UP) = 0" by (simp add: key_to_button_e_def)
  have r: "\<not> key_states input_init ! nat (key_to_button_e KEY_UP)"
    by (simp add: b input_init_def BUTTON_COUNT_def)
  have "button_events (emitted input_init
     ((lv_arduboy_emu_app_handle_input (Some 1) KEY_UP ^^ Suc (Suc 0)) input_init)) = [(0, True)]"
    using repeated_key_presses_once [OF a k r, of "Some 1", unfolded Let_def b] by blast
  then show ?thesis using a k r by simp
qed

lemma released_step:
  "i < 6 \<Longrightarrow> released ks i = (if ks ! i then [Button_event i False] else []) @ released ks (Suc i)"
  by (simp add: released_def upt_conv_Cons)

lemma released_update: "released (ks[i := v]) (Suc i) = released ks (Suc i)"
  unfolding released_def
  by (rule arg_cong [where f = "map (\<lambda>j. Button_event j False)"], rule filter_cong) simp_all

lemma release_loop_step:
  "i < 6 \<Longrightarrow> release_loop i s =
     release_loop (Suc i)
       (if key_states s ! i
        then s\<lparr>ext_calls := ext_calls s @ [Button_event i False],
               key_states := (key_states s)[i := False]\<rparr>
        else s)"
  by (subst release_loop.simps) (simp add: BUTTON_COUNT_def Let_def)

lemma release_loop_stop: "release_loop 6 s = s"
  by (subst release_loop.simps) (simp add: BUTTON_COUNT_def)

lemma take_Suc_update_False:
  "i < length ks \<Longrightarrow> take (Suc i) (ks[i := False]) = take i ks @ [False]"
  by (simp add: take_Suc_conv_app_nth)

lemma take_Suc_False:
  "i < length ks \<Longrightarrow> \<not> ks ! i \<Longrightarrow> take (Suc i) ks = take i ks @ [False]"
  by (simp add: take_Suc_conv_app_nth)

lemma release_loop_result:
  "i \<le> 6 \<Longrightarrow> length (key_states s) = 6 \<Longrightarrow>
     release_loop i s =
       s\<lparr>ext_calls := ext_calls s @ released (key_states s) i,
         key_states := take i (key_states s) @ replicate (6 - i) False\<rparr>"
proof (induction "6 - i" arbitrary: i s)
  case 0
  then have "i = 6" by simp
  then show ?case using 0 by (simp add: release_loop_stop released_def)
next
  case (Suc n)
  then have i: "i < 6" by simp
  have r: "replicate (6 - i) False = False # replicate (6 - Suc i) False"
    using i by (simp add: Suc_diff_Suc flip: replicate_Suc)
  show ?case
  proof (cases "key_states s ! i")
    case True
    let ?s1 = "s\<lparr>ext_calls := ext_calls s @ [Button_event i False],
               key_states := (key_states s)[i := False]\<rparr>"
    have "release_loop i s = release_loop (Suc i) ?s1"
      using True by (simp add: release_loop_step [OF i])
    also have "\<dots> = ?s1\<lparr>ext_calls := ext_calls ?s1 @ released (key_states ?s1) (Suc i),
         key_states := take (Suc i) (key_states ?s1) @ replicate (6 - Suc i) False\<rparr>"
      using Suc.hyps(2) Suc.prems i by (intro Suc.hyps(1)) simp_all
    finally show ?thesis
      using True i Suc.prems(2)
      by (simp add: released_update released_step [OF i] take_Suc_update_False r)
  next
    case False
    have "release_loop i s = release_loop (Suc i) s"
      using False by (simp add: release_loop_step [OF i])
    also have "\<dots> = s\<lparr>ext_calls := ext_calls s @ released (key_states s) (Suc i),
         key_states := take (Suc i) (key_states s) @ replicate (6 - Suc i) False\<rparr>"
      using Suc.hyps(2) Suc.prems i by (intro Suc.hyps(1)) simp_all
    finally show ?thesis
      using False i Suc.prems(2)
      by (simp add: released_step [OF i] take_Suc_False r)
  qed
qed

lemma handle_input_no_release:
  "Button_event b False \<notin> set (emitted s (lv_arduboy_emu_app_handle_input lv_timer_create key s))"
  by (simp add: lv_arduboy_emu_app_handle_input_def Let_def emitted_def)

text \<open>
  Claim C6. The timer callback emits a release event for each button that is pressed,
  in the order of the buttons, and none for a released one; afterwards every button is
  released. The key handler never emits a release event.
\<close>

theorem release_only_on_timer:
  "length (key_states s) = BUTTON_COUNT \<Longrightarrow>
     (let s' = key_release_timer_cb s
      in emitted s s' =
           map (\<lambda>i. Button_event i False) (filter (\<lambda>i. key_states s ! i) [0..<BUTTON_COUNT]) \<and>
         key_states s' = replicate BUTTON_COUNT False \<and>
         g_release_timer s' = g_release_timer s) \<and>
     (\<forall>lv_timer_create key b.
        Button_event b False \<notin>
          set (emitted s (lv_arduboy_emu_app_handle_input lv_timer_create key s)))"
proof -
  assume "length (key_states s) = BUTTON_COUNT"
  then have len: "length (key_states s) = 6" by (simp add: BUTTON_COUNT_def)
  have "key_release_timer_cb s =
      s\<lparr>ext_calls := ext_calls s @ released (key_states s) 0,
        key_states := replicate 6 False\<rparr>"
    using release_loop_result [of 0 s] len by (simp add: key_release_timer_cb_def)
  then show ?thesis
    using handle_input_no_release
    by (simp add: Let_def emitted_def released_def BUTTON_COUNT_def)
qed

theorem release_only_on_timer_witness:
  "length (key_states \<lparr>key_states = [True, False, False, False, True, False],
      g_release_timer = Some 1, ext_calls = []\<rparr>) = BUTTON_COUNT \<and>
   emitted \<lparr>key_states = [True, False, False, False, True, False],
      g_release_timer = Some 1, ext_calls = []\<rparr>
     (key_release_timer_cb \<lparr>key_states = [True, False, False, False, True, False],
      g_release_timer = Some 1, ext_calls = []\<rparr>) =
     [Button_event 0 False, Button_event 4 False] \<and>
   key_states (key_release_timer_cb \<lparr>key_states = [True, False, False, False, True, False],
      g_release_timer = Some 1, ext_calls = []\<rparr>) =
     [False, False, False, False, False, False]"
proof -
  let ?s = "\<lparr>key_states = [True, False, False, False, True, False],
      g_release_timer = Some 1, ext_calls = []\<rparr>"
  have len: "length (key_states ?s) = BUTTON_COUNT" by (simp add: BUTTON_COUNT_def)
  have f: "filter (\<lambda>i. key_states ?s ! i) [0..<BUTTON_COUNT] = [0, 4]"
    by (simp add: BUTTON_COUNT_def upt_conv_Cons)
  have r: "replicate BUTTON_COUNT False = [False, False, False, False, False, False]"
    by (simp add: BUTTON_COUNT_def numeral_eq_Suc)
  show ?thesis
    using release_only_on_timer [OF len, THEN conjunct1, unfolded Let_def f r] len
    by simp
qed

subsection \<open>Rendering before initialisation\<close>

lemma render_initialized:
  "initialized g_ctx \<Longrightarrow> canvas g_ctx = Some cv \<Longrightarrow>
     ssd1306_gl_render lv_canvas_fill_bg lv_canvas_set_px g_ctx surface =
       render_y lv_canvas_set_px g_ctx cv 0
         (lv_canvas_fill_bg cv lv_color_black LV_OPA_COVER surface)"
  by (simp add: ssd1306_gl_render_def)

text \<open>
  Claim C10. When the context is not initialised, or its canvas is \<^verbatim>\<open>NULL\<close>, the
  renderer returns at line 172: the destination surface is unchanged, whatever the
  canvas operations of LVGL do.
\<close>

theorem render_before_init_is_noop:
  "\<not> initialized g_ctx \<or> canvas g_ctx = None \<Longrightarrow>
     ssd1306_gl_render lv_canvas_fill_bg lv_canvas_set_px g_ctx surface = surface"
  by (auto simp add: ssd1306_gl_render_def)

theorem render_before_init_is_noop_witness:
  "\<not> initialized g_ctx_zero \<and> canvas (g_ctx_zero\<lparr>initialized := True\<rparr>) = None \<and>
   ssd1306_gl_render (\<lambda>cv color opa s. []) (\<lambda>cv x y color opa s. (x, y, color) # s)
     g_ctx_zero [(1, 1, (9, 9, 9))] = [(1, 1, (9, 9, 9))] \<and>
   ssd1306_gl_render (\<lambda>cv color opa s. []) (\<lambda>cv x y color opa s. (x, y, color) # s)
     (g_ctx_zero\<lparr>initialized := True\<rparr>) [(1, 1, (9, 9, 9))] = [(1, 1, (9, 9, 9))]"
proof -
  let ?fill = "(\<lambda>cv color opa s. []) :: (int32 \<times> int32 \<times> lv_color) list fill_bg"
  let ?px = "(\<lambda>cv x y color opa s. (x, y, color) # s) :: (int32 \<times> int32 \<times> lv_color) list set_px"
  have a: "\<not> initialized g_ctx_zero \<or> canvas g_ctx_zero = None"
    by (simp add: g_ctx_zero_def)
  have b: "\<not> initialized (g_ctx_zero\<lparr>initialized := True\<rparr>) \<or>
      canvas (g_ctx_zero\<lparr>initialized := True\<rparr>) = None"
    by (simp add: g_ctx_zero_def)
  have 1: "ssd1306_gl_render ?fill ?px g_ctx_zero [(1, 1, (9, 9, 9))] = [(1, 1, (9, 9, 9))]"
    using a by (rule render_before_init_is_noop)
  have 2: "ssd1306_gl_render ?fill ?px (g_ctx_zero\<lparr>initialized := True\<rparr>) [(1, 1, (9, 9, 9))] =
      [(1, 1, (9, 9, 9))]"
    using b by (rule render_before_init_is_noop)
  have c: "\<not> initialized g_ctx_zero" "canvas (g_ctx_zero\<lparr>initialized := True\<rparr>) = None"
    by (simp_all add: g_ctx_zero_def)
  show ?thesis using c 1 2 by blast
qed


end
